theory Spec2Isabelle
  imports Main "HOL-Library.Word"
begin

unbundle bit_operations_syntax

section \<open>Machine integers and little-endian fields\<close>

type_synonym u8 = "8 word"
type_synonym u32 = "32 word"
type_synonym u64 = "64 word"

text \<open>
  Modelled from the spec: the field accessors \<open>get_u32\<close>, \<open>get_bytes\<close>, \<open>put_u32\<close>,
  \<open>put_u64\<close>, \<open>put_bytes\<close> and \<open>array_to_le64\<close> are declared in headers of the
  repository that are not among the sources. The layout section of the specification fixes
  them: every integer field is little-endian, \<open>get_bytes\<close> and \<open>put_bytes\<close> copy raw
  bytes, and each accessor returns the cursor advanced by the number of bytes it handled.
  A cursor into the metadata resource is an offset into the byte list; a read that leaves
  the list is undefined behaviour of the C program and is the value \<open>None\<close>.
\<close>

definition le32 :: "u8 list \<Rightarrow> u32" where
  "le32 bs = foldr (\<lambda>b w. ucast b OR push_bit 8 w) bs 0"

definition le64 :: "u8 list \<Rightarrow> u64" where
  "le64 bs = foldr (\<lambda>b w. ucast b OR push_bit 8 w) bs 0"

definition get_u32 :: "u8 list \<Rightarrow> nat \<Rightarrow> (u32 \<times> nat) option" where
  "get_u32 buf p = (if p + 4 \<le> length buf then Some (le32 (take 4 (drop p buf)), p + 4) else None)"

definition get_bytes :: "u8 list \<Rightarrow> nat \<Rightarrow> nat \<Rightarrow> (u8 list \<times> nat) option" where
  "get_bytes buf p num_bytes =
     (if p + num_bytes \<le> length buf then Some (take num_bytes (drop p buf), p + num_bytes) else None)"

fun array_to_le64 :: "u8 list \<Rightarrow> nat \<Rightarrow> u64 list" where
  "array_to_le64 bs 0 = []"
| "array_to_le64 bs (Suc n) = le64 (take 8 bs) # array_to_le64 (drop 8 bs) n"

definition put_u32 :: "u32 \<Rightarrow> u8 list" where
  "put_u32 val = [ucast val, ucast (drop_bit 8 val), ucast (drop_bit 16 val), ucast (drop_bit 24 val)]"

definition put_u64 :: "u64 \<Rightarrow> u8 list" where
  "put_u64 val = [ucast val, ucast (drop_bit 8 val), ucast (drop_bit 16 val), ucast (drop_bit 24 val),
     ucast (drop_bit 32 val), ucast (drop_bit 40 val), ucast (drop_bit 48 val), ucast (drop_bit 56 val)]"

definition put_bytes :: "nat \<Rightarrow> u8 list \<Rightarrow> u8 list option" where
  "put_bytes num_bytes input = (if num_bytes \<le> length input then Some (take num_bytes input) else None)"

section \<open>The heap\<close>

text \<open>
  The security data lives in heap blocks that \<open>read_security_data\<close> allocates and
  \<open>free_security_data\<close> releases, so the heap is explicit: a store from addresses to blocks,
  the next unused address, the number of allocation requests made so far, and the
  allocator's answers (\<open>malloc_ok h k\<close> tells whether request number \<open>k\<close> is granted).
  A freed or never allocated address has no block. Addresses are never reused. The outer
  \<open>option\<close> of every operation is \<open>None\<close> where the C program has undefined
  behaviour (a read outside a block or outside the resource, a free of a block that is not
  live) or stops at a failed \<open>wimlib_assert\<close>.
\<close>

type_synonym addr = nat

text \<open>
  Modelled from the spec: \<open>struct wim_security_data\<close> is declared in a header that is not
  among the sources. The data model of the specification gives its fields: the 32-bit
  \<open>total_length\<close> and \<open>num_entries\<close>, the array of 64-bit sizes, the array of descriptor
  buffers and the unsigned reference count. The two arrays are pointers, null when absent.
\<close>

record wim_security_data =
  total_length :: u32
  num_entries :: u32
  sizes :: "addr option"
  descriptors :: "addr option"
  refcnt :: u32

datatype block =
    Raw
  | Sd wim_security_data
  | U64s "u64 list"
  | Ptrs "addr option list"
  | Bytes "u8 list"

record heap =
  store :: "addr \<Rightarrow> block option"
  next_addr :: addr
  nallocs :: nat
  malloc_ok :: "nat \<Rightarrow> bool"

text \<open>
  Modelled from the spec: the error codes are declared in a header that is not among the
  sources; the table of messages in util.c names them. \<open>WIMLIB_ERR_SUCCESS\<close> is the
  return value 0, \<open>WIMLIB_ERR_NOMEM\<close> is the specification's OutOfMemory and
  \<open>WIMLIB_ERR_INVALID_RESOURCE_SIZE\<close> its InvalidResourceSize.
\<close>

datatype wimlib_error_code =
    WIMLIB_ERR_SUCCESS
  | WIMLIB_ERR_NOMEM
  | WIMLIB_ERR_INVALID_RESOURCE_SIZE

definition alloc :: "block \<Rightarrow> heap \<Rightarrow> addr option \<times> heap" where
  "alloc b h =
     (if malloc_ok h (nallocs h)
      then (Some (next_addr h),
            h\<lparr>store := (store h)(next_addr h \<mapsto> b), next_addr := Suc (next_addr h),
              nallocs := Suc (nallocs h)\<rparr>)
      else (None, h\<lparr>nallocs := Suc (nallocs h)\<rparr>))"

text \<open>
  Modelled from the spec: the macros \<open>MALLOC\<close>, \<open>CALLOC\<close> and \<open>FREE\<close> are declared in
  a header that is not among the sources; util.c shows where they lead
  (\<open>wimlib_malloc_func\<close>, \<open>wimlib_calloc\<close>, \<open>wimlib_free_func\<close>: the C library's
  functions unless replaced). \<open>MALLOC\<close> returns a block whose contents are not yet
  written, or null; whether the request is granted is the allocator's answer, whatever the
  size. \<open>FREE\<close> of null does nothing.
\<close>

definition MALLOC :: "nat \<Rightarrow> heap \<Rightarrow> addr option \<times> heap" where
  "MALLOC sz h = alloc Raw h"

text \<open>\<open>wimlib_calloc\<close> of util.c is one \<open>MALLOC\<close> and a \<open>memset\<close> to zero. It is used
  for the array of pointers: the zeroed block is an array of null pointers.\<close>

definition CALLOC :: "nat \<Rightarrow> nat \<Rightarrow> heap \<Rightarrow> addr option \<times> heap" where
  "CALLOC nmemb sz h = alloc (Ptrs (replicate nmemb None)) h"

definition FREE :: "addr option \<Rightarrow> heap \<Rightarrow> heap option" where
  "FREE p h =
     (case p of
        None \<Rightarrow> Some h
      | Some a \<Rightarrow> (if store h a = None then None else Some (h\<lparr>store := (store h)(a := None)\<rparr>)))"

definition poke :: "addr \<Rightarrow> block \<Rightarrow> heap \<Rightarrow> heap" where
  "poke a b h = h\<lparr>store := (store h)(a \<mapsto> b)\<rparr>"

section \<open>free_security_data\<close>

text \<open>
  Modelled from the spec: \<open>wimlib_assert\<close> is a macro of a header that is not among the
  sources. The specification treats a failed internal assertion as a fatal programming
  error, not as a result: a call that fails one has no value here.
\<close>

text \<open>The loop \<open>while (num_entries--) FREE(*descriptors++)\<close>: the list is the array from the
  moving pointer on, the number is the remaining count.\<close>

fun free_descriptors :: "addr option list \<Rightarrow> nat \<Rightarrow> heap \<Rightarrow> heap option" where
  "free_descriptors ps 0 h = Some h"
| "free_descriptors ps (Suc n) h =
     (case ps of
        [] \<Rightarrow> None
      | d # ps' \<Rightarrow> (case FREE d h of None \<Rightarrow> None | Some h' \<Rightarrow> free_descriptors ps' n h'))"

definition free_security_data :: "addr option \<Rightarrow> heap \<Rightarrow> heap option" where
  "free_security_data sd h =
     (case sd of
        None \<Rightarrow> Some h
      | Some sda \<Rightarrow>
         (case store h sda of
            Some (Sd s) \<Rightarrow>
              if \<not> (refcnt s \<ge> 1) then None
              else if refcnt s = 1 then
                (case (case descriptors s of
                         None \<Rightarrow> Some h
                       | Some da \<Rightarrow>
                          (case store h da of
                             Some (Ptrs ps) \<Rightarrow> free_descriptors ps (unat (num_entries s)) h
                           | _ \<Rightarrow> None)) of
                   None \<Rightarrow> None
                 | Some h1 \<Rightarrow>
                    (case FREE (sizes s) h1 of
                       None \<Rightarrow> None
                     | Some h2 \<Rightarrow>
                        (case FREE (descriptors s) h2 of
                           None \<Rightarrow> None
                         | Some h3 \<Rightarrow> FREE (Some sda) h3)))
              else Some (poke sda (Sd (s\<lparr>refcnt := refcnt s - 1\<rparr>)) h)
          | _ \<Rightarrow> None))"

section \<open>read_security_data\<close>

text \<open>The two exits of \<open>read_security_data\<close>. \<open>sd_p\<close> is the caller's variable that the
  function writes on success only; the result carries its value after the call.\<close>

definition out_free_sd ::
  "wimlib_error_code \<Rightarrow> addr option \<Rightarrow> addr \<Rightarrow> heap \<Rightarrow> (wimlib_error_code \<times> addr option \<times> heap) option" where
  "out_free_sd ret sd_p sd h =
     (case free_security_data (Some sd) h of
        None \<Rightarrow> None
      | Some h' \<Rightarrow> Some (ret, sd_p, h'))"

definition out_ok ::
  "addr \<Rightarrow> wim_security_data \<Rightarrow> u64 \<Rightarrow> heap \<Rightarrow> (wimlib_error_code \<times> addr option \<times> heap) option" where
  "out_ok sd s total_len h =
     Some (WIMLIB_ERR_SUCCESS, Some sd, poke sd (Sd (s\<lparr>total_length := ucast total_len\<rparr>)) h)"

text \<open>The reads \<open>sd->sizes[i]\<close> and the write \<open>sd->descriptors[i] = ...\<close>.\<close>

definition sizes_at :: "heap \<Rightarrow> wim_security_data \<Rightarrow> u32 \<Rightarrow> u64 option" where
  "sizes_at h s i =
     (case sizes s of
        None \<Rightarrow> None
      | Some a \<Rightarrow>
         (case store h a of
            Some (U64s zs) \<Rightarrow> (if unat i < length zs then Some (zs ! unat i) else None)
          | _ \<Rightarrow> None))"

definition set_descriptor :: "wim_security_data \<Rightarrow> u32 \<Rightarrow> addr option \<Rightarrow> heap \<Rightarrow> heap option" where
  "set_descriptor s i d h =
     (case descriptors s of
        None \<Rightarrow> None
      | Some b \<Rightarrow>
         (case store h b of
            Some (Ptrs ps) \<Rightarrow> (if unat i < length ps then Some (poke b (Ptrs (ps[unat i := d])) h) else None)
          | _ \<Rightarrow> None))"

text \<open>
  The loop over the entries. \<open>s\<close> is the value of \<open>*sd\<close>, which the loop only reads;
  \<open>p\<close> is the read cursor and \<open>total_len\<close> the 64-bit running length. The overflow test
  of the source, \<open>total_len + sd->sizes[i] < total_len\<close>, only prints a message and changes
  nothing, so it leaves no trace here: the addition that follows wraps.
\<close>

function read_descriptors ::
  "u8 list \<Rightarrow> addr option \<Rightarrow> addr \<Rightarrow> wim_security_data \<Rightarrow> u32 \<Rightarrow> nat \<Rightarrow> u64 \<Rightarrow> heap
     \<Rightarrow> (wimlib_error_code \<times> addr option \<times> heap) option" where
  "read_descriptors metadata_resource sd_p sd s i p total_len h =
     (if i < num_entries s then
        (case sizes_at h s i of
           None \<Rightarrow> None
         | Some sz \<Rightarrow>
            (if total_len + sz > ucast (total_length s)
             then out_free_sd WIMLIB_ERR_INVALID_RESOURCE_SIZE sd_p sd h
             else
               (case MALLOC (unat sz) h of
                  (d, h1) \<Rightarrow>
                    (case set_descriptor s i d h1 of
                       None \<Rightarrow> None
                     | Some h2 \<Rightarrow>
                        (case d of
                           None \<Rightarrow> out_free_sd WIMLIB_ERR_NOMEM sd_p sd h2
                         | Some da \<Rightarrow>
                            (case get_bytes metadata_resource p (unat sz) of
                               None \<Rightarrow> None
                             | Some (bs, p') \<Rightarrow>
                                 read_descriptors metadata_resource sd_p sd s (i + 1) p'
                                   (total_len + sz) (poke da (Bytes bs) h2)))))))
      else out_ok sd s total_len h)"
  by pat_completeness auto
termination
proof (relation "measure (\<lambda>(buf, sd_p, sd, s, i, p, total_len, h). unat (num_entries s) - unat i)")
  show "wf (measure (\<lambda>(buf, sd_p, sd, s, i, p, total_len, h). unat (num_entries s) - unat i))"
    by simp
next
  fix metadata_resource :: "u8 list" and sd_p :: "addr option" and sd :: addr
    and s :: wim_security_data and i :: u32 and p' :: nat and total_len sz :: u64 and h h2 :: heap
    and bs :: "u8 list" and p :: nat and da :: addr
  assume lt: "i < num_entries s"
  then have "unat i < unat (num_entries s)"
    by (simp add: word_less_nat_alt)
  moreover from lt have "unat (i + 1) = Suc (unat i)"
    by unat_arith
  ultimately show "((metadata_resource, sd_p, sd, s, i + 1, p', total_len + sz, poke da (Bytes bs) h2),
      (metadata_resource, sd_p, sd, s, i, p, total_len, h))
    \<in> measure (\<lambda>(buf, sd_p, sd, s, i, p, total_len, h). unat (num_entries s) - unat i)"
    by simp
qed

text \<open>\<open>sizeof(struct wim_security_data)\<close>: two 32-bit fields, two pointers and the
  reference count, with padding, on a 64-bit target. The allocator's answer does not
  depend on it.\<close>

definition sizeof_wim_security_data :: nat where
  "sizeof_wim_security_data = 32"

text \<open>The part of \<open>read_security_data\<close> after the test \<open>sd->num_entries == 0\<close>: the
  array of sizes, the array of descriptor pointers, and the loop.\<close>

definition read_entries ::
  "u8 list \<Rightarrow> addr option \<Rightarrow> addr \<Rightarrow> wim_security_data \<Rightarrow> nat \<Rightarrow> heap
     \<Rightarrow> (wimlib_error_code \<times> addr option \<times> heap) option" where
  "read_entries metadata_resource sd_p sd s p h1 =
     (let sizes_size = (ucast (num_entries s) :: u64) * 8;
          size_no_descriptors = 8 + sizes_size
      in if size_no_descriptors > ucast (total_length s)
         then out_free_sd WIMLIB_ERR_INVALID_RESOURCE_SIZE sd_p sd h1
         else
           (case MALLOC (unat sizes_size) h1 of
              (a, h2) \<Rightarrow>
                (let s2 = s\<lparr>sizes := a\<rparr>; h3 = poke sd (Sd s2) h2
                 in (case a of
                       None \<Rightarrow> out_free_sd WIMLIB_ERR_NOMEM sd_p sd h3
                     | Some aa \<Rightarrow>
                        (case get_bytes metadata_resource p (unat sizes_size) of
                           None \<Rightarrow> None
                         | Some (bs, p3) \<Rightarrow>
                            (let h4 = poke aa (U64s (array_to_le64 bs (unat (num_entries s)))) h3
                             in (case CALLOC (unat (num_entries s)) 8 h4 of
                                   (b, h5) \<Rightarrow>
                                     (let s3 = s2\<lparr>descriptors := b\<rparr>; h6 = poke sd (Sd s3) h5
                                      in (case b of
                                            None \<Rightarrow> out_free_sd WIMLIB_ERR_NOMEM sd_p sd h6
                                          | Some ba \<Rightarrow>
                                             read_descriptors metadata_resource sd_p sd s3 0 p3
                                               size_no_descriptors h6)))))))))"

text \<open>
  \<open>read_security_data\<close>. The fields of the fresh structure are all written (three
  assignments and two \<open>get_u32\<close>) before anything reads them, so the structure enters the
  heap in one step. \<open>metadata_resource_len\<close> is the length the caller passes, a separate
  argument as in the source.
\<close>

definition read_security_data ::
  "u8 list \<Rightarrow> u64 \<Rightarrow> addr option \<Rightarrow> heap \<Rightarrow> (wimlib_error_code \<times> addr option \<times> heap) option" where
  "read_security_data metadata_resource metadata_resource_len sd_p h =
     (case MALLOC sizeof_wim_security_data h of
        (None, h0) \<Rightarrow> Some (WIMLIB_ERR_NOMEM, sd_p, h0)
      | (Some sd, h0) \<Rightarrow>
         (case get_u32 metadata_resource 0 of
            None \<Rightarrow> None
          | Some (tot_len, p1) \<Rightarrow>
             (case get_u32 metadata_resource p1 of
                None \<Rightarrow> None
              | Some (n, p2) \<Rightarrow>
                 (let s = \<lparr>total_length = tot_len, num_entries = n, sizes = None, descriptors = None,
                            refcnt = 1\<rparr>;
                      h1 = poke sd (Sd s) h0
                  in if ucast (total_length s) > metadata_resource_len
                     then out_free_sd WIMLIB_ERR_INVALID_RESOURCE_SIZE sd_p sd h1
                     else if num_entries s = 0 then out_ok sd s 8 h1
                     else read_entries metadata_resource sd_p sd s p2 h1))))"

section \<open>write_security_data\<close>

text \<open>The block that \<open>sd->descriptors[i]\<close> points to.\<close>

definition descriptor_at :: "heap \<Rightarrow> wim_security_data \<Rightarrow> u32 \<Rightarrow> u8 list option" where
  "descriptor_at h s i =
     (case descriptors s of
        None \<Rightarrow> None
      | Some b \<Rightarrow>
         (case store h b of
            Some (Ptrs ps) \<Rightarrow>
              (if unat i < length ps
               then (case ps ! unat i of
                       None \<Rightarrow> None
                     | Some d \<Rightarrow> (case store h d of Some (Bytes bs) \<Rightarrow> Some bs | _ \<Rightarrow> None))
               else None)
          | _ \<Rightarrow> None))"

text \<open>The two loops of \<open>write_security_data\<close>; \<open>out\<close> is what has been written from
  \<open>orig_p\<close> up to the cursor \<open>p\<close>.\<close>

function write_sizes :: "heap \<Rightarrow> wim_security_data \<Rightarrow> u32 \<Rightarrow> u8 list \<Rightarrow> u8 list option" where
  "write_sizes h s i out =
     (if i < num_entries s then
        (case sizes_at h s i of
           None \<Rightarrow> None
         | Some sz \<Rightarrow> write_sizes h s (i + 1) (out @ put_u64 sz))
      else Some out)"
  by pat_completeness auto
termination
proof (relation "measure (\<lambda>(h, s, i, out). unat (num_entries s) - unat i)")
  show "wf (measure (\<lambda>(h, s, i, out). unat (num_entries s) - unat i))"
    by simp
next
  fix h :: heap and s :: wim_security_data and i :: u32 and out :: "u8 list" and sz :: u64
  assume lt: "i < num_entries s"
  then have "unat i < unat (num_entries s)"
    by (simp add: word_less_nat_alt)
  moreover from lt have "unat (i + 1) = Suc (unat i)"
    by unat_arith
  ultimately show "((h, s, i + 1, out @ put_u64 sz), (h, s, i, out))
    \<in> measure (\<lambda>(h, s, i, out). unat (num_entries s) - unat i)"
    by simp
qed

function write_descriptors :: "heap \<Rightarrow> wim_security_data \<Rightarrow> u32 \<Rightarrow> u8 list \<Rightarrow> u8 list option" where
  "write_descriptors h s i out =
     (if i < num_entries s then
        (case sizes_at h s i of
           None \<Rightarrow> None
         | Some sz \<Rightarrow>
            (case descriptor_at h s i of
               None \<Rightarrow> None
             | Some input \<Rightarrow>
                (case put_bytes (unat sz) input of
                   None \<Rightarrow> None
                 | Some bs \<Rightarrow> write_descriptors h s (i + 1) (out @ bs))))
      else Some out)"
  by pat_completeness auto
termination
proof (relation "measure (\<lambda>(h, s, i, out). unat (num_entries s) - unat i)")
  show "wf (measure (\<lambda>(h, s, i, out). unat (num_entries s) - unat i))"
    by simp
next
  fix h :: heap and s :: wim_security_data and i :: u32 and out bs :: "u8 list"
  assume lt: "i < num_entries s"
  then have "unat i < unat (num_entries s)"
    by (simp add: word_less_nat_alt)
  moreover from lt have "unat (i + 1) = Suc (unat i)"
    by unat_arith
  ultimately show "((h, s, i + 1, out @ bs), (h, s, i, out))
    \<in> measure (\<lambda>(h, s, i, out). unat (num_entries s) - unat i)"
    by simp
qed

text \<open>\<open>write_security_data\<close> returns the cursor after the last byte; here, the bytes
  between \<open>orig_p\<close> and that cursor. The final \<open>wimlib_assert\<close> compares their number
  with \<open>sd->total_length\<close>.\<close>

definition write_security_data :: "addr \<Rightarrow> heap \<Rightarrow> u8 list option" where
  "write_security_data sd h =
     (case store h sd of
        Some (Sd s) \<Rightarrow>
          (case write_sizes h s 0 (put_u32 (total_length s) @ put_u32 (num_entries s)) of
             None \<Rightarrow> None
           | Some out1 \<Rightarrow>
              (case write_descriptors h s 0 out1 of
                 None \<Rightarrow> None
               | Some out2 \<Rightarrow> (if length out2 = unat (total_length s) then Some out2 else None)))
      | _ \<Rightarrow> None)"

section \<open>Specification vocabulary\<close>

text \<open>The non-null pointers of a pointer array, and the blocks a table owns: the descriptor
  buffers among the first \<open>num_entries\<close> pointers, the array of sizes, the array of
  pointers and the structure itself. \<open>table_live\<close> says that these blocks are live and
  pairwise different; \<open>release\<close> removes blocks from a heap.\<close>

fun non_null :: "addr option list \<Rightarrow> addr list" where
  "non_null [] = []"
| "non_null (None # ps) = non_null ps"
| "non_null (Some d # ps) = d # non_null ps"

definition table_blocks :: "heap \<Rightarrow> addr \<Rightarrow> wim_security_data \<Rightarrow> addr list" where
  "table_blocks h sd s =
     (case descriptors s of
        None \<Rightarrow> []
      | Some b \<Rightarrow> (case store h b of Some (Ptrs ps) \<Rightarrow> non_null (take (unat (num_entries s)) ps) | _ \<Rightarrow> []))
     @ (case sizes s of None \<Rightarrow> [] | Some a \<Rightarrow> [a])
     @ (case descriptors s of None \<Rightarrow> [] | Some b \<Rightarrow> [b])
     @ [sd]"

definition table_live :: "heap \<Rightarrow> addr \<Rightarrow> wim_security_data \<Rightarrow> bool" where
  "table_live h sd s \<longleftrightarrow>
     (case descriptors s of
        None \<Rightarrow> True
      | Some b \<Rightarrow> (case store h b of Some (Ptrs ps) \<Rightarrow> unat (num_entries s) \<le> length ps | _ \<Rightarrow> False))
     \<and> distinct (table_blocks h sd s)
     \<and> list_all (\<lambda>a. store h a \<noteq> None) (table_blocks h sd s)"

definition release :: "addr list \<Rightarrow> heap \<Rightarrow> heap" where
  "release as h = h\<lparr>store := (\<lambda>a. if a \<in> set as then None else store h a)\<rparr>"

text \<open>In a well-formed heap nothing lives at or beyond the next unused address.\<close>

definition heap_ok :: "heap \<Rightarrow> bool" where
  "heap_ok h \<longleftrightarrow> (\<forall>a \<ge> next_addr h. store h a = None)"

text \<open>The descriptors as the layout places them: consecutive pieces of the resource, of
  the given sizes, from the cursor \<open>p\<close> on.\<close>

fun split_descriptors :: "u8 list \<Rightarrow> nat \<Rightarrow> u64 list \<Rightarrow> u8 list list" where
  "split_descriptors buf p [] = []"
| "split_descriptors buf p (z # zs) = take (unat z) (drop p buf) # split_descriptors buf (p + unat z) zs"

text \<open>The state of \<open>read_security_data\<close> at the head of its loop, at index \<open>i\<close>, started
  in heap \<open>h0\<close>: the structure \<open>sd\<close>, the sizes \<open>zs\<close> at \<open>a\<close>, the pointers \<open>ps\<close> at \<open>b\<close>,
  the descriptors read so far, nothing else changed; the cursor \<open>p\<close> is the unwrapped
  accumulated length and \<open>total_len\<close> its 64-bit value.\<close>

definition loop_inv ::
  "heap \<Rightarrow> u8 list \<Rightarrow> addr \<Rightarrow> wim_security_data \<Rightarrow> addr \<Rightarrow> addr \<Rightarrow> u64 list \<Rightarrow> addr option list
     \<Rightarrow> u32 \<Rightarrow> nat \<Rightarrow> u64 \<Rightarrow> heap \<Rightarrow> bool" where
  "loop_inv h0 buf sd s a b zs ps i p total_len h \<longleftrightarrow>
     sizes s = Some a \<and> descriptors s = Some b \<and> refcnt s = 1 \<and>
     store h sd = Some (Sd s) \<and> store h a = Some (U64s zs) \<and> store h b = Some (Ptrs ps) \<and>
     length zs = unat (num_entries s) \<and> length ps = unat (num_entries s) \<and> i \<le> num_entries s \<and>
     (\<forall>k < length ps. unat i \<le> k \<longrightarrow> ps ! k = None) \<and>
     (\<forall>k < unat i. \<exists>d. ps ! k = Some d \<and>
        store h d = Some (Bytes (split_descriptors buf (8 + 8 * unat (num_entries s)) zs ! k))) \<and>
     distinct (non_null ps @ [a, b, sd]) \<and>
     (\<forall>x \<in> set (non_null ps @ [a, b, sd]). next_addr h0 \<le> x \<and> x < next_addr h) \<and>
     (\<forall>x. x \<notin> set (non_null ps @ [a, b, sd]) \<longrightarrow> store h x = store h0 x) \<and>
     heap_ok h0 \<and> heap_ok h \<and> malloc_ok h = malloc_ok h0 \<and>
     p = 8 + 8 * unat (num_entries s) + sum_list (map unat (take (unat i) zs)) \<and>
     total_len = of_nat p"


text \<open>A table as the specification describes it: the two header fields, the sizes and the
  descriptors. \<open>load_table\<close> reads the table that a structure in the heap represents (with
  no entries, the arrays are not looked at); \<open>decoded_table\<close> is what the layout says a
  resource holds, its length field recomputed from the number of entries and the sizes.\<close>

record table =
  tbl_total_length :: u32
  tbl_num_entries :: u32
  tbl_sizes :: "u64 list"
  tbl_descriptors :: "u8 list list"

definition bytes_at :: "heap \<Rightarrow> addr option \<Rightarrow> u8 list option" where
  "bytes_at h p =
     (case p of
        None \<Rightarrow> None
      | Some d \<Rightarrow> (case store h d of Some (Bytes bs) \<Rightarrow> Some bs | _ \<Rightarrow> None))"

definition load_table :: "heap \<Rightarrow> addr \<Rightarrow> table option" where
  "load_table h sd =
     (case store h sd of
        Some (Sd s) \<Rightarrow>
          if num_entries s = 0
          then Some \<lparr>tbl_total_length = total_length s, tbl_num_entries = 0, tbl_sizes = [],
                      tbl_descriptors = []\<rparr>
          else
            (case (sizes s, descriptors s) of
               (Some a, Some b) \<Rightarrow>
                 (case (store h a, store h b) of
                    (Some (U64s zs), Some (Ptrs ps)) \<Rightarrow>
                      (case those (map (bytes_at h) ps) of
                         Some ds \<Rightarrow>
                           Some \<lparr>tbl_total_length = total_length s, tbl_num_entries = num_entries s,
                                  tbl_sizes = zs, tbl_descriptors = ds\<rparr>
                       | None \<Rightarrow> None)
                  | _ \<Rightarrow> None)
             | _ \<Rightarrow> None)
      | _ \<Rightarrow> None)"

definition hdr_total_length :: "u8 list \<Rightarrow> u32" where
  "hdr_total_length buf = le32 (take 4 buf)"

definition hdr_num_entries :: "u8 list \<Rightarrow> u32" where
  "hdr_num_entries buf = le32 (take 4 (drop 4 buf))"

definition decoded_entries :: "u8 list \<Rightarrow> u32 \<Rightarrow> table" where
  "decoded_entries buf n =
     (let zs = array_to_le64 (take (8 * unat n) (drop 8 buf)) (unat n)
      in \<lparr>tbl_total_length = of_nat (8 + 8 * unat n + sum_list (map unat zs)),
          tbl_num_entries = n, tbl_sizes = zs,
          tbl_descriptors = split_descriptors buf (8 + 8 * unat n) zs\<rparr>)"

definition decoded_table :: "u8 list \<Rightarrow> table" where
  "decoded_table buf = decoded_entries buf (hdr_num_entries buf)"

text \<open>The structural invariants of a table, and the bytes of its layout: the header, each
  size as a little-endian 64-bit integer in index order, each descriptor's bytes in index
  order.\<close>

definition valid_table :: "table \<Rightarrow> bool" where
  "valid_table T \<longleftrightarrow>
     length (tbl_sizes T) = unat (tbl_num_entries T) \<and>
     list_all2 (\<lambda>z d. length d = unat z) (tbl_sizes T) (tbl_descriptors T) \<and>
     unat (tbl_total_length T)
       = 8 + 8 * unat (tbl_num_entries T) + sum_list (map unat (tbl_sizes T))"

definition table_bytes :: "table \<Rightarrow> u8 list" where
  "table_bytes T =
     put_u32 (tbl_total_length T) @ put_u32 (tbl_num_entries T)
       @ concat (map put_u64 (tbl_sizes T)) @ concat (tbl_descriptors T)"

definition example_table :: table where
  "example_table = \<lparr>tbl_total_length = 20, tbl_num_entries = 1, tbl_sizes = [4],
     tbl_descriptors = [[0xAA, 0xBB, 0xCC, 0xDD]]\<rparr>"

section \<open>Example heaps and resources\<close>

text \<open>A heap with no block, whose allocator grants every request; and a heap holding one
  table with a single four-byte descriptor and the given reference count.\<close>

definition empty_heap :: heap where
  "empty_heap = \<lparr>store = (\<lambda>a. None), next_addr = 0, nallocs = 0, malloc_ok = (\<lambda>k. True)\<rparr>"

definition example_sd :: "u32 \<Rightarrow> wim_security_data" where
  "example_sd rc = \<lparr>total_length = 20, num_entries = 1, sizes = Some 1, descriptors = Some 2,
     refcnt = rc\<rparr>"

definition example_heap :: "u32 \<Rightarrow> heap" where
  "example_heap rc =
     \<lparr>store = [0 \<mapsto> Sd (example_sd rc), 1 \<mapsto> U64s [4], 2 \<mapsto> Ptrs [Some 3],
               3 \<mapsto> Bytes [0xAA, 0xBB, 0xCC, 0xDD]],
      next_addr = 4, nallocs = 4, malloc_ok = (\<lambda>k. True)\<rparr>"

text \<open>A heap whose allocator grants only the first \<open>k\<close> requests.\<close>

definition stingy_heap :: "nat \<Rightarrow> heap" where
  "stingy_heap k = \<lparr>store = (\<lambda>a. None), next_addr = 0, nallocs = 0, malloc_ok = (\<lambda>j. j < k)\<rparr>"

text \<open>Resources: one entry of four bytes in a table of twenty bytes (an exact fit), and the
  same header with a size of twenty.\<close>

definition exact_fit :: "u8 list" where
  "exact_fit = [20, 0, 0, 0, 1, 0, 0, 0, 4, 0, 0, 0, 0, 0, 0, 0, 0xAA, 0xBB, 0xCC, 0xDD]"

text \<open>The exact fit followed by four more bytes, its length field saying twenty-four.\<close>

definition slack_fit :: "u8 list" where
  "slack_fit = [24, 0, 0, 0, 1, 0, 0, 0, 4, 0, 0, 0, 0, 0, 0, 0, 0xAA, 0xBB, 0xCC, 0xDD, 1, 2, 3, 4]"


text \<open>Resources with no entry: the length field says five in eight bytes, and one hundred
  in eight bytes. A resource whose single size, \<open>2^64 - 16\<close>, wraps the running length
  of sixteen to zero.\<close>

definition zero_entries :: "u8 list" where
  "zero_entries = [5, 0, 0, 0, 0, 0, 0, 0]"

definition zero_entries_oversized :: "u8 list" where
  "zero_entries_oversized = [100, 0, 0, 0, 0, 0, 0, 0]"

definition wrapping :: "u8 list" where
  "wrapping = [16, 0, 0, 0, 1, 0, 0, 0, 0xF0, 0xFF, 0xFF, 0xFF, 0xFF, 0xFF, 0xFF, 0xFF]"

text \<open>The same invariants with the equation for \<open>total_length\<close> read in 32 bits: the
  field is the sum narrowed, as \<open>read_security_data\<close> stores it.\<close>

definition valid_table_mod32 :: "table \<Rightarrow> bool" where
  "valid_table_mod32 T \<longleftrightarrow>
     length (tbl_sizes T) = unat (tbl_num_entries T) \<and>
     list_all2 (\<lambda>z d. length d = unat z) (tbl_sizes T) (tbl_descriptors T) \<and>
     tbl_total_length T
       = of_nat (8 + 8 * unat (tbl_num_entries T) + sum_list (map unat (tbl_sizes T)))"

text \<open>A table with one descriptor of \<open>2^32\<close> bytes: the sum \<open>8 + 8 + 2^32\<close> is sixteen
  in 32 bits.\<close>

definition big_descriptor :: "u8 list" where
  "big_descriptor = replicate (2 ^ 32) 0"

definition big_table :: table where
  "big_table = \<lparr>tbl_total_length = 16, tbl_num_entries = 1, tbl_sizes = [2 ^ 32],
     tbl_descriptors = [big_descriptor]\<rparr>"

definition big_heap :: heap where
  "big_heap =
     \<lparr>store = [0 \<mapsto> Sd \<lparr>total_length = 16, num_entries = 1, sizes = Some 1, descriptors = Some 2,
                          refcnt = 1\<rparr>,
               1 \<mapsto> U64s [2 ^ 32], 2 \<mapsto> Ptrs [Some 3], 3 \<mapsto> Bytes big_descriptor],
      next_addr = 4, nallocs = 4, malloc_ok = (\<lambda>k. True)\<rparr>"

text \<open>
  The allocator refuses the requests of the loop whose size has wrapped the running length.
  Request number \<open>nallocs h + 3 + j\<close> is the one for descriptor \<open>j\<close>, after the structure,
  the sizes and the pointer array. The loop reaches index \<open>j\<close> only with a running length
  within \<open>total_length\<close>, so a size that wraps it is at least \<open>2^64 - 2^32\<close>.
\<close>

definition wrapped_requests_refused :: "u8 list \<Rightarrow> heap \<Rightarrow> bool" where
  "wrapped_requests_refused buf h \<longleftrightarrow>
     (\<forall>j < unat (hdr_num_entries buf).
        8 + 8 * unat (hdr_num_entries buf)
          + sum_list (map unat (take j (tbl_sizes (decoded_table buf)))) \<le> unat (hdr_total_length buf) \<and>
        2 ^ 64 \<le> 8 + 8 * unat (hdr_num_entries buf)
          + sum_list (map unat (take (Suc j) (tbl_sizes (decoded_table buf))))
        \<longrightarrow> \<not> malloc_ok h (nallocs h + 3 + j))"

text \<open>Resources with two entries: sizes four and one in twenty-nine bytes; sizes four and
  five in twenty-eight bytes, where the second size overruns the total length.\<close>

definition two_entries :: "u8 list" where
  "two_entries = [29, 0, 0, 0, 2, 0, 0, 0, 4, 0, 0, 0, 0, 0, 0, 0, 1, 0, 0, 0, 0, 0, 0, 0,
     0xAA, 0xBB, 0xCC, 0xDD, 0xEE]"

definition second_overruns :: "u8 list" where
  "second_overruns = [28, 0, 0, 0, 2, 0, 0, 0, 4, 0, 0, 0, 0, 0, 0, 0, 5, 0, 0, 0, 0, 0, 0, 0,
     0xAA, 0xBB, 0xCC, 0xDD]"

section \<open>Properties\<close>

declare read_descriptors.simps [simp del] write_sizes.simps [simp del] write_descriptors.simps [simp del]

subsection \<open>Releasing blocks\<close>

lemma release_Nil [simp]: "release [] h = h"
  by (simp add: release_def)

lemma store_release [simp]: "store (release as h) a = (if a \<in> set as then None else store h a)"
  by (simp add: release_def)

lemma release_release: "release bs (release as h) = release (as @ bs) h"
  by (auto simp: release_def fun_eq_iff)

lemma FREE_None [simp]: "FREE None h = Some h"
  by (simp add: FREE_def)

lemma FREE_Some: "store h a \<noteq> None \<Longrightarrow> FREE (Some a) h = Some (release [a] h)"
  by (auto simp: FREE_def release_def fun_eq_iff fun_upd_def)

lemma set_non_null: "set (non_null ps) = {d. Some d \<in> set ps}"
  by (induction ps rule: non_null.induct) auto

lemma free_descriptors_release:
  "n \<le> length ps \<Longrightarrow> distinct (non_null (take n ps)) \<Longrightarrow>
   \<forall>d \<in> set (non_null (take n ps)). store h d \<noteq> None \<Longrightarrow>
   free_descriptors ps n h = Some (release (non_null (take n ps)) h)"
proof (induction n arbitrary: ps h)
  case 0
  then show ?case by simp
next
  case (Suc n)
  then obtain d ps' where ps: "ps = d # ps'"
    by (cases ps) auto
  show ?case
  proof (cases d)
    case None
    with Suc ps show ?thesis by simp
  next
    case (Some a)
    with Suc.prems ps have live: "store h a \<noteq> None"
      and nin: "a \<notin> set (non_null (take n ps'))"
      and dist: "distinct (non_null (take n ps'))"
      and rest: "\<forall>d \<in> set (non_null (take n ps')). store h d \<noteq> None"
      and len: "n \<le> length ps'"
      by auto
    from rest nin have "\<forall>d \<in> set (non_null (take n ps')). store (release [a] h) d \<noteq> None"
      by auto
    with Suc.IH [OF len dist]
    have "free_descriptors ps' n (release [a] h) = Some (release (non_null (take n ps')) (release [a] h))"
      by blast
    with live ps Some show ?thesis
      by (simp add: FREE_Some release_release)
  qed
qed

lemma free_security_data_last:
  assumes sd: "store h sd = Some (Sd s)" and rc: "refcnt s = 1" and live: "table_live h sd s"
  shows "free_security_data (Some sd) h = Some (release (table_blocks h sd s) h)"
proof -
  define ds where "ds = (case descriptors s of
        None \<Rightarrow> []
      | Some b \<Rightarrow> (case store h b of Some (Ptrs ps) \<Rightarrow> non_null (take (unat (num_entries s)) ps) | _ \<Rightarrow> []))"
  define sz where "sz = (case sizes s of None \<Rightarrow> [] | Some a \<Rightarrow> [a])"
  define dp where "dp = (case descriptors s of None \<Rightarrow> [] | Some b \<Rightarrow> [b])"
  have blocks: "table_blocks h sd s = ds @ sz @ dp @ [sd]"
    by (simp add: table_blocks_def ds_def sz_def dp_def)
  from live have dist: "distinct (ds @ sz @ dp @ [sd])"
    and alive: "\<forall>a \<in> set (ds @ sz @ dp @ [sd]). store h a \<noteq> None"
    by (simp_all add: table_live_def blocks list_all_iff)
  have step1: "(case descriptors s of
                         None \<Rightarrow> Some h
                       | Some da \<Rightarrow>
                          (case store h da of
                             Some (Ptrs ps) \<Rightarrow> free_descriptors ps (unat (num_entries s)) h
                           | _ \<Rightarrow> None)) = Some (release ds h)"
  proof (cases "descriptors s")
    case None
    then show ?thesis by (simp add: ds_def)
  next
    case (Some b)
    with live obtain ps where ps: "store h b = Some (Ptrs ps)" "unat (num_entries s) \<le> length ps"
      by (auto simp: table_live_def split: option.splits block.splits)
    with Some have dsv: "ds = non_null (take (unat (num_entries s)) ps)"
      by (simp add: ds_def)
    from dist alive have "distinct ds" "\<forall>d \<in> set ds. store h d \<noteq> None"
      by auto
    with ps dsv have "free_descriptors ps (unat (num_entries s)) h = Some (release ds h)"
      using free_descriptors_release by simp
    with Some ps show ?thesis by simp
  qed
  have step2: "FREE (sizes s) (release ds h) = Some (release (ds @ sz) h)"
  proof (cases "sizes s")
    case None
    then show ?thesis by (simp add: sz_def)
  next
    case (Some a)
    with dist alive have "store (release ds h) a \<noteq> None"
      by (auto simp: sz_def)
    with Some show ?thesis
      by (simp add: FREE_Some release_release sz_def)
  qed
  have step3: "FREE (descriptors s) (release (ds @ sz) h) = Some (release (ds @ sz @ dp) h)"
  proof (cases "descriptors s")
    case None
    then show ?thesis by (simp add: dp_def)
  next
    case (Some b)
    with dist alive have "store (release (ds @ sz) h) b \<noteq> None"
      by (auto simp: dp_def)
    with Some show ?thesis
      by (simp add: FREE_Some release_release dp_def)
  qed
  from dist alive have "store (release (ds @ sz @ dp) h) sd \<noteq> None"
    by auto
  then have step4: "FREE (Some sd) (release (ds @ sz @ dp) h) = Some (release (ds @ sz @ dp @ [sd]) h)"
    by (simp add: FREE_Some release_release)
  from sd rc step1 step2 step3 step4 show ?thesis
    by (simp add: free_security_data_def blocks)
qed

lemma free_security_data_shared:
  assumes sd: "store h sd = Some (Sd s)" and rc: "1 < refcnt s"
  shows "free_security_data (Some sd) h = Some (poke sd (Sd (s\<lparr>refcnt := refcnt s - 1\<rparr>)) h)"
  using assms by (auto simp: free_security_data_def)


subsection \<open>Allocation and the loop invariant\<close>

lemma alloc_Some:
  assumes "alloc blk h = (Some a, h')"
  shows "a = next_addr h" "store h' = (store h)(a \<mapsto> blk)" "next_addr h' = Suc a"
    "malloc_ok h' = malloc_ok h" "malloc_ok h (nallocs h)" "nallocs h' = Suc (nallocs h)"
  using assms by (auto simp: alloc_def split: if_splits)

lemma alloc_None:
  assumes "alloc blk h = (None, h')"
  shows "store h' = store h" "next_addr h' = next_addr h" "malloc_ok h' = malloc_ok h"
    "\<not> malloc_ok h (nallocs h)"
  using assms by (auto simp: alloc_def split: if_splits)

lemma alloc_granted:
  "malloc_ok h (nallocs h) \<Longrightarrow> \<exists>h'. alloc blk h = (Some (next_addr h), h')"
  by (simp add: alloc_def)

lemma store_poke [simp]: "store (poke a blk h) x = (if x = a then Some blk else store h x)"
  by (simp add: poke_def)

lemma poke_fields [simp]:
  "next_addr (poke a blk h) = next_addr h" "malloc_ok (poke a blk h) = malloc_ok h"
  "nallocs (poke a blk h) = nallocs h"
  by (simp_all add: poke_def)

lemma cleanup:
  assumes "store h sd = Some (Sd s)" "refcnt s = 1" "table_live h sd s"
    and "\<forall>x \<in> set (table_blocks h sd s). store h0 x = None"
    and "\<forall>x. x \<notin> set (table_blocks h sd s) \<longrightarrow> store h x = store h0 x"
  shows "\<exists>h'. out_free_sd ret sd_p sd h = Some (ret, sd_p, h') \<and> store h' = store h0"
proof -
  have "store (release (table_blocks h sd s) h) = store h0"
    using assms(4,5) by (auto simp: fun_eq_iff)
  with free_security_data_last [OF assms(1-3)] show ?thesis
    by (simp add: out_free_sd_def)
qed

lemma loop_invD:
  assumes "loop_inv h0 buf sd s a b zs ps i p total_len h"
  shows "sizes s = Some a" "descriptors s = Some b" "refcnt s = 1"
    "store h sd = Some (Sd s)" "store h a = Some (U64s zs)" "store h b = Some (Ptrs ps)"
    "length zs = unat (num_entries s)" "length ps = unat (num_entries s)" "i \<le> num_entries s"
    "\<And>k. k < length ps \<Longrightarrow> unat i \<le> k \<Longrightarrow> ps ! k = None"
    "\<And>k. k < unat i \<Longrightarrow> \<exists>d. ps ! k = Some d \<and>
        store h d = Some (Bytes (split_descriptors buf (8 + 8 * unat (num_entries s)) zs ! k))"
    "distinct (non_null ps @ [a, b, sd])"
    "\<And>x. x \<in> set (non_null ps @ [a, b, sd]) \<Longrightarrow> next_addr h0 \<le> x \<and> x < next_addr h"
    "\<And>x. x \<notin> set (non_null ps @ [a, b, sd]) \<Longrightarrow> store h x = store h0 x"
    "heap_ok h0" "heap_ok h" "malloc_ok h = malloc_ok h0"
    "p = 8 + 8 * unat (num_entries s) + sum_list (map unat (take (unat i) zs))"
    "total_len = of_nat p"
  using assms unfolding loop_inv_def by blast+

lemma loop_inv_blocks:
  assumes "loop_inv h0 buf sd s a b zs ps i p total_len h"
  shows "table_blocks h sd s = non_null ps @ [a, b, sd]"
  using loop_invD(1,2,6,8) [OF assms] by (simp add: table_blocks_def)

lemma non_null_live:
  assumes inv: "loop_inv h0 buf sd s a b zs ps i p total_len h" and x: "x \<in> set (non_null ps)"
  shows "store h x \<noteq> None"
proof -
  from x obtain k where k: "k < length ps" "ps ! k = Some x"
    by (auto simp: set_non_null in_set_conv_nth)
  have "k < unat i"
  proof (rule ccontr)
    assume "\<not> k < unat i"
    then have "ps ! k = None"
      using loop_invD(10) [OF inv k(1)] by simp
    with k show False by simp
  qed
  from loop_invD(11) [OF inv this] k show ?thesis
    by auto
qed

lemma loop_inv_cleanup:
  assumes inv: "loop_inv h0 buf sd s a b zs ps i p total_len h"
  shows "\<exists>h'. out_free_sd ret sd_p sd h = Some (ret, sd_p, h') \<and> store h' = store h0"
proof (rule cleanup)
  note D = loop_invD [OF inv]
  show "store h sd = Some (Sd s)" "refcnt s = 1"
    by (rule D)+
  have blocks: "table_blocks h sd s = non_null ps @ [a, b, sd]"
    using inv by (rule loop_inv_blocks)
  have live: "\<forall>x \<in> set (non_null ps @ [a, b, sd]). store h x \<noteq> None"
    using non_null_live [OF inv] D(4,5,6) by auto
  show "table_live h sd s"
    unfolding table_live_def blocks using live D(2,6,8,12)
    by (simp add: list_all_iff)
  show "\<forall>x \<in> set (table_blocks h sd s). store h0 x = None"
    unfolding blocks using D(13,15) by (auto simp: heap_ok_def)
  show "\<forall>x. x \<notin> set (table_blocks h sd s) \<longrightarrow> store h x = store h0 x"
    unfolding blocks using D(14) by blast
qed


lemma loop_inv_same_store:
  assumes "loop_inv h0 buf sd s a b zs ps i p total_len h"
    and "store h' = store h" "next_addr h' = next_addr h" "malloc_ok h' = malloc_ok h"
  shows "loop_inv h0 buf sd s a b zs ps i p total_len h'"
  using assms unfolding loop_inv_def heap_ok_def by simp

lemma set_non_null_update:
  assumes "k < length ps" "ps ! k = None"
  shows "set (non_null (ps[k := Some d])) = insert d (set (non_null ps))"
proof -
  have "set (ps[k := Some d]) \<subseteq> insert (Some d) (set ps)"
    by (rule set_update_subset_insert)
  moreover have "Some d \<in> set (ps[k := Some d])"
    using assms(1) by (simp add: set_update_memI)
  moreover have "Some x \<in> set (ps[k := Some d])" if "Some x \<in> set ps" for x
  proof -
    from that obtain j where j: "j < length ps" "ps ! j = Some x"
      by (auto simp: in_set_conv_nth)
    with assms(2) have "j \<noteq> k" by auto
    with j have "ps[k := Some d] ! j = Some x" by simp
    with j(1) show ?thesis
      by (metis length_list_update nth_mem)
  qed
  ultimately show ?thesis
    by (auto simp: set_non_null)
qed

lemma distinct_non_null_update:
  "k < length ps \<Longrightarrow> ps ! k = None \<Longrightarrow> d \<notin> set (non_null ps) \<Longrightarrow> distinct (non_null ps)
     \<Longrightarrow> distinct (non_null (ps[k := Some d]))"
proof (induction ps arbitrary: k)
  case Nil
  then show ?case by simp
next
  case (Cons q ps)
  show ?case
  proof (cases k)
    case 0
    with Cons.prems show ?thesis by simp
  next
    case (Suc j)
    with Cons.prems have j: "j < length ps" "ps ! j = None"
      by simp_all
    show ?thesis
    proof (cases q)
      case None
      with Cons Suc j show ?thesis by simp
    next
      case (Some e)
      with Cons.prems have "d \<notin> set (non_null ps)" "distinct (non_null ps)" "e \<noteq> d"
        "e \<notin> set (non_null ps)"
        by auto
      with Cons.IH [OF j] Some Suc j show ?thesis
        by (simp add: set_non_null_update)
    qed
  qed
qed

lemma split_descriptors_nth:
  "k < length zs \<Longrightarrow>
   split_descriptors buf p zs ! k = take (unat (zs ! k)) (drop (p + sum_list (map unat (take k zs))) buf)"
proof (induction zs arbitrary: p k)
  case Nil
  then show ?case by simp
next
  case (Cons z zs)
  then show ?case
    by (cases k) (simp_all add: add.assoc)
qed

lemma unat_succ: "(i :: u32) < n \<Longrightarrow> unat (i + 1) = Suc (unat i)"
  by unat_arith

lemma loop_inv_step:
  assumes inv: "loop_inv h0 buf sd s a b zs ps i p total_len h"
    and lt: "i < num_entries s"
    and al: "MALLOC m h = (Some d, h1)"
  shows "loop_inv h0 buf sd s a b zs (ps[unat i := Some d]) (i + 1) (p + unat (zs ! unat i))
           (total_len + zs ! unat i)
           (poke d (Bytes (take (unat (zs ! unat i)) (drop p buf)))
              (poke b (Ptrs (ps[unat i := Some d])) h1))"
proof -
  note D = loop_invD [OF inv]
  note A = alloc_Some [OF al [unfolded MALLOC_def]]
  let ?ps = "ps[unat i := Some d]"
  let ?h = "poke d (Bytes (take (unat (zs ! unat i)) (drop p buf))) (poke b (Ptrs ?ps) h1)"
  from lt have ui: "unat i < unat (num_entries s)"
    by (simp add: word_less_nat_alt)
  have suc: "unat (i + 1) = Suc (unat i)"
    using lt by (rule unat_succ)
  have old: "x < d" if "x \<in> set (non_null ps @ [a, b, sd])" for x
    using D(13) [OF that] A(1) by simp
  then have dab: "a \<noteq> d" "b \<noteq> d" "sd \<noteq> d" and dnn: "d \<notin> set (non_null ps)"
    by fastforce+
  from D(12) have abs: "a \<noteq> b" "a \<noteq> sd" "b \<noteq> sd" "a \<notin> set (non_null ps)"
    "b \<notin> set (non_null ps)" "sd \<notin> set (non_null ps)" "distinct (non_null ps)"
    by auto
  have none: "ps ! unat i = None"
    using D(10) [of "unat i"] ui D(8) by simp
  have setn: "set (non_null ?ps) = insert d (set (non_null ps))"
    using ui D(8) none by (simp add: set_non_null_update)
  have c1: "store ?h sd = Some (Sd s)" "store ?h a = Some (U64s zs)" "store ?h b = Some (Ptrs ?ps)"
    using D(4,5) dab abs A(2) by simp_all
  have c2: "length ?ps = unat (num_entries s)" "i + 1 \<le> num_entries s"
    using D(8) lt by (simp_all add: inc_le)
  have c3: "?ps ! k = None" if "k < length ?ps" "unat (i + 1) \<le> k" for k
    using that suc D(10) [of k] by simp
  have c4: "\<exists>e. ?ps ! k = Some e \<and>
        store ?h e = Some (Bytes (split_descriptors buf (8 + 8 * unat (num_entries s)) zs ! k))"
    if "k < unat (i + 1)" for k
  proof (cases "k = unat i")
    case True
    have "split_descriptors buf (8 + 8 * unat (num_entries s)) zs ! unat i
            = take (unat (zs ! unat i)) (drop p buf)"
      using ui D(7,18) by (simp add: split_descriptors_nth)
    with True ui D(8) show ?thesis by simp
  next
    case False
    with that suc have k: "k < unat i" by simp
    from D(11) [OF k] obtain e where e: "ps ! k = Some e"
      "store h e = Some (Bytes (split_descriptors buf (8 + 8 * unat (num_entries s)) zs ! k))"
      by blast
    from k ui D(8) have "k < length ps" by simp
    with e(1) have "Some e \<in> set ps"
      by (metis nth_mem)
    then have "e \<in> set (non_null ps)"
      by (simp add: set_non_null)
    with abs dnn have "e \<noteq> b" "e \<noteq> d" by auto
    with e False A(2) show ?thesis by simp
  qed
  have c5: "distinct (non_null ?ps @ [a, b, sd])"
    using distinct_non_null_update [of "unat i" ps d] ui D(8) none dnn abs dab
    by (simp add: setn)
  have c6: "next_addr h0 \<le> x \<and> x < next_addr ?h" if "x \<in> set (non_null ?ps @ [a, b, sd])" for x
  proof (cases "x = d")
    case True
    have "next_addr h0 \<le> a" using D(13) [of a] by simp
    moreover have "a < d" using old [of a] by simp
    ultimately show ?thesis using True A(3) by simp
  next
    case False
    with that have "x \<in> set (non_null ps @ [a, b, sd])"
      by (auto simp: setn)
    from D(13) [OF this] A(1,3) show ?thesis by simp
  qed
  have c7: "store ?h x = store h0 x" if "x \<notin> set (non_null ?ps @ [a, b, sd])" for x
  proof -
    from that have "x \<notin> set (non_null ps @ [a, b, sd])" "x \<noteq> d" "x \<noteq> b"
      by (auto simp: setn)
    with D(14) [of x] A(2) show ?thesis by simp
  qed
  have c8: "heap_ok ?h"
    using D(16) A(1,2,3) old [of b] by (auto simp: heap_ok_def)
  have c9: "malloc_ok ?h = malloc_ok h0"
    using D(17) A(4) by simp
  have c10: "p + unat (zs ! unat i)
      = 8 + 8 * unat (num_entries s) + sum_list (map unat (take (unat (i + 1)) zs))"
    using D(18) D(7) ui by (simp add: suc take_Suc_conv_app_nth)
  have c11: "total_len + zs ! unat i = of_nat (p + unat (zs ! unat i))"
    using D(19) by simp
  show ?thesis
    unfolding loop_inv_def
    using D(1,2,3,7,15) c1 c2 c3 c4 c5 c6 c7 c8 c9 c10 c11
    by blast
qed


subsection \<open>What read_security_data leaves behind\<close>

lemma sizes_at_inv:
  assumes "loop_inv h0 buf sd s a b zs ps i p total_len h" "i < num_entries s"
  shows "sizes_at h s i = Some (zs ! unat i)"
  using loop_invD(1,5,7) [OF assms(1)] assms(2)
  by (simp add: sizes_at_def word_less_nat_alt)

lemma set_descriptor_Some:
  assumes "descriptors s = Some b" "store h b = Some (Ptrs ps)" "unat i < length ps"
  shows "set_descriptor s i d h = Some (poke b (Ptrs (ps[unat i := d])) h)"
  using assms by (simp add: set_descriptor_def)

lemma loop_inv_alloc_failed:
  assumes inv: "loop_inv h0 buf sd s a b zs ps i p total_len h"
    and lt: "i < num_entries s"
    and al: "MALLOC m h = (None, h1)"
  shows "\<exists>h2. set_descriptor s i None h1 = Some h2 \<and> loop_inv h0 buf sd s a b zs ps i p total_len h2"
proof -
  note D = loop_invD [OF inv]
  note A = alloc_None [OF al [unfolded MALLOC_def]]
  from lt have ui: "unat i < length ps"
    using D(8) by (simp add: word_less_nat_alt)
  have none: "ps[unat i := None] = ps"
    using D(10) [OF ui] by (simp add: list_update_same_conv ui)
  have sb: "store h1 b = Some (Ptrs ps)"
    using A(1) D(6) by simp
  have set: "set_descriptor s i None h1 = Some (poke b (Ptrs ps) h1)"
    using set_descriptor_Some [OF D(2) sb ui, of None] none by simp
  have "store (poke b (Ptrs ps) h1) = store h"
    using A(1) D(6) by (auto simp: fun_eq_iff)
  then have "loop_inv h0 buf sd s a b zs ps i p total_len (poke b (Ptrs ps) h1)"
    using loop_inv_same_store [OF inv] A(2,3) by simp
  with set show ?thesis by blast
qed

lemma read_descriptors_post:
  assumes "loop_inv h0 buf sd s a b zs ps i p total_len h"
    and "read_descriptors buf sd_p sd s i p total_len h = Some (ret, sd_p', h')"
  shows "(ret \<noteq> WIMLIB_ERR_SUCCESS \<and> sd_p' = sd_p \<and> store h' = store h0) \<or>
         (ret = WIMLIB_ERR_SUCCESS \<and> sd_p' = Some sd \<and>
          (\<exists>ps' p' h''. loop_inv h0 buf sd s a b zs ps' (num_entries s) p' (of_nat p') h'' \<and>
             h' = poke sd (Sd (s\<lparr>total_length := ucast (of_nat p' :: u64)\<rparr>)) h''))"
  using assms
proof (induction "unat (num_entries s) - unat i" arbitrary: i ps p total_len h rule: less_induct)
  case less
  note inv = less.prems(1) and run = less.prems(2)
  note D = loop_invD [OF inv]
  show ?case
  proof (cases "i < num_entries s")
    case False
    with D(9) have "i = num_entries s" by simp
    with run False inv D(19) show ?thesis
      by (subst (asm) read_descriptors.simps) (auto simp: out_ok_def)
  next
    case True
    let ?sz = "zs ! unat i"
    have sz: "sizes_at h s i = Some ?sz"
      using inv True by (rule sizes_at_inv)
    show ?thesis
    proof (cases "total_len + ?sz > ucast (total_length s)")
      case over: True
      from loop_inv_cleanup [OF inv, of WIMLIB_ERR_INVALID_RESOURCE_SIZE sd_p]
      obtain h1 where "out_free_sd WIMLIB_ERR_INVALID_RESOURCE_SIZE sd_p sd h
            = Some (WIMLIB_ERR_INVALID_RESOURCE_SIZE, sd_p, h1)" "store h1 = store h0"
        by blast
      with run True sz over show ?thesis
        by (subst (asm) read_descriptors.simps) auto
    next
      case fits: False
      obtain d h1 where al: "MALLOC (unat ?sz) h = (d, h1)"
        by (cases "MALLOC (unat ?sz) h") auto
      show ?thesis
      proof (cases d)
        case None
        from loop_inv_alloc_failed [OF inv True al [unfolded None]]
        obtain h2 where h2: "set_descriptor s i None h1 = Some h2"
          "loop_inv h0 buf sd s a b zs ps i p total_len h2"
          by blast
        from loop_inv_cleanup [OF h2(2), of WIMLIB_ERR_NOMEM sd_p]
        obtain h3 where "out_free_sd WIMLIB_ERR_NOMEM sd_p sd h2 = Some (WIMLIB_ERR_NOMEM, sd_p, h3)"
          "store h3 = store h0"
          by blast
        with run True sz fits al None h2(1) show ?thesis
          by (subst (asm) read_descriptors.simps) auto
      next
        case (Some da)
        note A = alloc_Some [OF al [unfolded Some MALLOC_def]]
        from True have ui: "unat i < length ps"
          using D(8) by (simp add: word_less_nat_alt)
        have sb: "store h1 b = Some (Ptrs ps)"
          using A(1,2) D(6) D(13) [of b] by auto
        have set: "set_descriptor s i (Some da) h1 = Some (poke b (Ptrs (ps[unat i := Some da])) h1)"
          by (rule set_descriptor_Some [OF D(2) sb ui])
        show ?thesis
        proof (cases "get_bytes buf p (unat ?sz)")
          case None
          with run True sz fits al Some set show ?thesis
            by (subst (asm) read_descriptors.simps) auto
        next
          case (Some r)
          then have gb: "get_bytes buf p (unat ?sz) = Some (take (unat ?sz) (drop p buf), p + unat ?sz)"
            by (auto simp: get_bytes_def split: if_splits)
          let ?h = "poke da (Bytes (take (unat ?sz) (drop p buf))) (poke b (Ptrs (ps[unat i := Some da])) h1)"
          have inv': "loop_inv h0 buf sd s a b zs (ps[unat i := Some da]) (i + 1) (p + unat ?sz)
                 (total_len + ?sz) ?h"
            using inv True al [unfolded \<open>d = Some da\<close>] by (rule loop_inv_step)
          have run': "read_descriptors buf sd_p sd s (i + 1) (p + unat ?sz) (total_len + ?sz) ?h
                = Some (ret, sd_p', h')"
            using run True sz fits al \<open>d = Some da\<close> set gb
            by (subst (asm) read_descriptors.simps) auto
          have "unat (num_entries s) - unat (i + 1) < unat (num_entries s) - unat i"
            using True by (simp add: unat_succ word_less_nat_alt)
          from less.hyps [OF this inv' run'] show ?thesis .
        qed
      qed
    qed
  qed
qed


lemma those_map_Some:
  assumes "length ys = length xs" "\<And>k. k < length xs \<Longrightarrow> f (xs ! k) = Some (ys ! k)"
  shows "those (map f xs) = Some ys"
  using assms
proof (induction xs arbitrary: ys)
  case Nil
  then show ?case by simp
next
  case (Cons x xs)
  then obtain y ys' where ys: "ys = y # ys'"
    by (cases ys) auto
  from Cons.prems(2) [of 0] ys have "f x = Some y" by simp
  moreover have "those (map f xs) = Some ys'"
  proof (rule Cons.IH)
    show "length ys' = length xs" using Cons.prems(1) ys by simp
    show "f (xs ! k) = Some (ys' ! k)" if "k < length xs" for k
      using Cons.prems(2) [of "Suc k"] that ys by simp
  qed
  ultimately show ?case using ys by simp
qed

lemma length_split_descriptors [simp]: "length (split_descriptors buf p zs) = length zs"
  by (induction zs arbitrary: p) simp_all

lemma length_array_to_le64 [simp]: "length (array_to_le64 bs n) = n"
  by (induction n arbitrary: bs) simp_all

lemma unat_ucast_u32_u64: "unat (ucast (n :: u32) :: u64) = unat n"
  by transfer simp

lemma unat_sizes_size: "unat ((ucast (n :: u32) :: u64) * 8) = 8 * unat n"
proof -
  have "unat n < 2 ^ 32"
    using unsigned_less [of n] by simp
  then have "unat n * 8 < 2 ^ 64" by simp
  then show ?thesis
    by (simp add: unat_word_ariths unat_ucast_u32_u64)
qed

lemma sizes_size_of_nat: "8 + (ucast (n :: u32) :: u64) * 8 = of_nat (8 + 8 * unat n)"
  by simp

lemma ucast_of_nat_u64_u32: "(ucast (of_nat P :: u64) :: u32) = of_nat P"
  by (rule bit_word_eqI) (auto simp: bit_simps)

lemma loop_inv_final_table:
  assumes inv: "loop_inv h0 buf sd s a b zs ps (num_entries s) p total_len h"
    and ne: "num_entries s \<noteq> 0"
  shows "load_table (poke sd (Sd (s\<lparr>total_length := len\<rparr>)) h) sd
     = Some \<lparr>tbl_total_length = len, tbl_num_entries = num_entries s, tbl_sizes = zs,
            tbl_descriptors = split_descriptors buf (8 + 8 * unat (num_entries s)) zs\<rparr>"
proof -
  note D = loop_invD [OF inv]
  let ?h = "poke sd (Sd (s\<lparr>total_length := len\<rparr>)) h"
  from D(12) have ne2: "a \<noteq> sd" "b \<noteq> sd" "sd \<notin> set (non_null ps)" by auto
  have "those (map (bytes_at ?h) ps)
      = Some (split_descriptors buf (8 + 8 * unat (num_entries s)) zs)"
  proof (rule those_map_Some)
    show "length (split_descriptors buf (8 + 8 * unat (num_entries s)) zs) = length ps"
      using D(7,8) by simp
    fix k assume k: "k < length ps"
    with D(8) have "k < unat (num_entries s)" by simp
    from D(11) [OF this] obtain d where d: "ps ! k = Some d"
      "store h d = Some (Bytes (split_descriptors buf (8 + 8 * unat (num_entries s)) zs ! k))"
      by blast
    from d(1) k have "Some d \<in> set ps" by (metis nth_mem)
    then have "d \<in> set (non_null ps)" by (simp add: set_non_null)
    with ne2 have "d \<noteq> sd" by auto
    with d show "bytes_at ?h (ps ! k)
        = Some (split_descriptors buf (8 + 8 * unat (num_entries s)) zs ! k)"
      by (simp add: bytes_at_def)
  qed
  with D(1,2,5,6) ne ne2 show ?thesis
    by (simp add: load_table_def)
qed


lemma non_null_replicate [simp]: "non_null (replicate n None) = []"
  by (induction n) simp_all

lemma cleanup_early:
  assumes ok: "heap_ok h0" and sd: "sd = next_addr h0"
    and st: "store h sd = Some (Sd s)" and rc: "refcnt s = 1" and de: "descriptors s = None"
    and sz: "sizes s = None \<or> sizes s = Some (Suc sd) \<and> store h (Suc sd) \<noteq> None"
    and fr: "\<forall>x. x \<noteq> sd \<and> x \<noteq> Suc sd \<longrightarrow> store h x = store h0 x"
    and fr1: "sizes s = None \<longrightarrow> store h (Suc sd) = store h0 (Suc sd)"
  shows "\<exists>h'. out_free_sd ret sd_p sd h = Some (ret, sd_p, h') \<and> store h' = store h0"
proof (rule cleanup [OF st rc])
  have blocks: "table_blocks h sd s = (case sizes s of None \<Rightarrow> [] | Some a \<Rightarrow> [a]) @ [sd]"
    using de by (simp add: table_blocks_def)
  show "table_live h sd s"
    unfolding table_live_def blocks using de sz st by (auto simp: list_all_iff)
  show "\<forall>x \<in> set (table_blocks h sd s). store h0 x = None"
    unfolding blocks using sz ok sd by (auto simp: heap_ok_def)
  show "\<forall>x. x \<notin> set (table_blocks h sd s) \<longrightarrow> store h x = store h0 x"
    unfolding blocks using sz fr fr1 by auto
qed

lemma read_entries_post:
  assumes ok: "heap_ok h0" and sd: "sd = next_addr h0"
    and st: "store h1 = (store h0)(sd \<mapsto> Sd s)" and nx: "next_addr h1 = Suc sd"
    and mo: "malloc_ok h1 = malloc_ok h0"
    and s: "sizes s = None" "descriptors s = None" "refcnt s = 1" and ne: "num_entries s \<noteq> 0"
    and run: "read_entries buf sd_p sd s 8 h1 = Some (ret, sd_p', h')"
  shows "(ret \<noteq> WIMLIB_ERR_SUCCESS \<and> sd_p' = sd_p \<and> store h' = store h0) \<or>
         (ret = WIMLIB_ERR_SUCCESS \<and> sd_p' = Some sd \<and>
          load_table h' sd = Some (decoded_entries buf (num_entries s)))"
proof (cases "8 + (ucast (num_entries s) :: u64) * 8 > ucast (total_length s)")
  case True
  have "\<exists>h'. out_free_sd WIMLIB_ERR_INVALID_RESOURCE_SIZE sd_p sd h1
          = Some (WIMLIB_ERR_INVALID_RESOURCE_SIZE, sd_p, h') \<and> store h' = store h0"
    by (rule cleanup_early [OF ok sd, of h1 s]) (use st s in auto)
  with run True show ?thesis
    by (auto simp: read_entries_def Let_def)
next
  case False
  let ?n = "unat (num_entries s)"
  let ?size = "unat ((ucast (num_entries s) :: u64) * 8)"
  obtain a h2 where al: "MALLOC ?size h1 = (a, h2)"
    by (cases "MALLOC ?size h1") auto
  show ?thesis
  proof (cases a)
    case None
    note A = alloc_None [OF al [unfolded None MALLOC_def]]
    let ?h3 = "poke sd (Sd (s\<lparr>sizes := None\<rparr>)) h2"
    have "\<exists>h'. out_free_sd WIMLIB_ERR_NOMEM sd_p sd ?h3
          = Some (WIMLIB_ERR_NOMEM, sd_p, h') \<and> store h' = store h0"
      by (rule cleanup_early [OF ok sd, of ?h3 "s\<lparr>sizes := None\<rparr>"]) (use st s A in auto)
    with run False al None show ?thesis
      by (auto simp: read_entries_def Let_def)
  next
    case (Some aa)
    note A = alloc_Some [OF al [unfolded Some MALLOC_def]]
    have aa: "aa = Suc sd" using A(1) nx by simp
    let ?s2 = "s\<lparr>sizes := Some aa\<rparr>"
    let ?h3 = "poke sd (Sd ?s2) h2"
    show ?thesis
    proof (cases "get_bytes buf 8 ?size")
      case None
      with run False al Some show ?thesis
        by (auto simp: read_entries_def Let_def)
    next
      case (Some r)
      then have gb: "get_bytes buf 8 ?size = Some (take (8 * ?n) (drop 8 buf), 8 + 8 * ?n)"
        by (auto simp: get_bytes_def unat_sizes_size split: if_splits)
      let ?zs = "array_to_le64 (take (8 * ?n) (drop 8 buf)) ?n"
      let ?h4 = "poke aa (U64s ?zs) ?h3"
      obtain b h5 where ca: "CALLOC ?n 8 ?h4 = (b, h5)"
        by (cases "CALLOC ?n 8 ?h4") auto
      show ?thesis
      proof (cases b)
        case None
        note C = alloc_None [OF ca [unfolded None CALLOC_def]]
        let ?h6 = "poke sd (Sd (?s2\<lparr>descriptors := None\<rparr>)) h5"
        have "\<exists>h'. out_free_sd WIMLIB_ERR_NOMEM sd_p sd ?h6
            = Some (WIMLIB_ERR_NOMEM, sd_p, h') \<and> store h' = store h0"
          by (rule cleanup_early [OF ok sd, of ?h6 "?s2\<lparr>descriptors := None\<rparr>"])
            (use st s A C aa in auto)
        with run False al \<open>a = Some aa\<close> gb ca None show ?thesis
          by (auto simp: read_entries_def Let_def)
      next
        case (Some ba)
        note C = alloc_Some [OF ca [unfolded Some CALLOC_def]]
        have ba: "ba = Suc (Suc sd)" using C(1) A(3) aa by simp
        let ?s3 = "?s2\<lparr>descriptors := Some ba\<rparr>"
        let ?h6 = "poke sd (Sd ?s3) h5"
        let ?ps = "replicate ?n (None :: addr option)"
        have st6: "store ?h6 = (store h0)(sd \<mapsto> Sd ?s3, aa \<mapsto> U64s ?zs, ba \<mapsto> Ptrs ?ps)"
          using st A(2) C(2) aa ba by (auto simp: fun_eq_iff)
        have nx6: "next_addr ?h6 = Suc ba" using C(3) by simp
        have ok6: "heap_ok ?h6"
          using ok sd aa ba unfolding heap_ok_def st6 nx6 by auto
        have inv: "loop_inv h0 buf sd ?s3 aa ba ?zs ?ps 0 (8 + 8 * ?n)
                     (8 + (ucast (num_entries s) :: u64) * 8) ?h6"
          unfolding loop_inv_def st6 nx6
          using s ok ok6 aa ba sd mo A(4) C(4) by (auto simp: heap_ok_def)
        have run': "read_descriptors buf sd_p sd ?s3 0 (8 + 8 * ?n)
                     (8 + (ucast (num_entries s) :: u64) * 8) ?h6 = Some (ret, sd_p', h')"
          using run False al \<open>a = Some aa\<close> gb ca Some
          by (auto simp: read_entries_def Let_def)
        from read_descriptors_post [OF inv run'] show ?thesis
        proof (elim disjE conjE exE)
          fix ps' p' h''
          assume r: "ret = WIMLIB_ERR_SUCCESS" "sd_p' = Some sd"
            and fin: "loop_inv h0 buf sd ?s3 aa ba ?zs ps' (num_entries ?s3) p' (of_nat p') h''"
            and h': "h' = poke sd (Sd (?s3\<lparr>total_length := ucast (of_nat p' :: u64)\<rparr>)) h''"
          have p': "p' = 8 + 8 * ?n + sum_list (map unat ?zs)"
            using loop_invD(18) [OF fin] by simp
          have "load_table h' sd
              = Some \<lparr>tbl_total_length = ucast (of_nat p' :: u64), tbl_num_entries = num_entries ?s3,
                       tbl_sizes = ?zs,
                       tbl_descriptors = split_descriptors buf (8 + 8 * unat (num_entries ?s3)) ?zs\<rparr>"
            unfolding h' using fin by (rule loop_inv_final_table) (use ne in simp)
          then have "load_table h' sd = Some (decoded_entries buf (num_entries s))"
            unfolding ucast_of_nat_u64_u32 p' by (simp add: decoded_entries_def Let_def)
          with r show ?thesis by simp
        qed simp
      qed
    qed
  qed
qed


lemma get_u32_header:
  assumes "8 \<le> length buf"
  shows "get_u32 buf 0 = Some (hdr_total_length buf, 4)"
    "get_u32 buf 4 = Some (hdr_num_entries buf, 8)"
  using assms by (simp_all add: get_u32_def hdr_total_length_def hdr_num_entries_def)

lemma get_u32_short:
  assumes "\<not> 8 \<le> length buf"
  shows "get_u32 buf 0 = None \<or> (\<exists>v. get_u32 buf 0 = Some (v, 4) \<and> get_u32 buf 4 = None)"
  using assms by (auto simp: get_u32_def)

lemma read_security_data_post:
  assumes ok: "heap_ok h" and run: "read_security_data buf len sd_p h = Some (ret, sd_p', h')"
  shows "(ret \<noteq> WIMLIB_ERR_SUCCESS \<and> sd_p' = sd_p \<and> store h' = store h) \<or>
         (ret = WIMLIB_ERR_SUCCESS \<and> sd_p' = Some (next_addr h) \<and>
          load_table h' (next_addr h) = Some (decoded_table buf))"
proof -
  obtain sdo h0 where al: "MALLOC sizeof_wim_security_data h = (sdo, h0)"
    by (cases "MALLOC sizeof_wim_security_data h") auto
  show ?thesis
  proof (cases sdo)
    case None
    note A = alloc_None [OF al [unfolded None MALLOC_def]]
    from run al None A(1) show ?thesis
      by (auto simp: read_security_data_def)
  next
    case (Some sd)
    note A = alloc_Some [OF al [unfolded Some MALLOC_def]]
    have len8: "8 \<le> length buf"
    proof (rule ccontr)
      assume "\<not> 8 \<le> length buf"
      from get_u32_short [OF this] run al Some show False
        by (auto simp: read_security_data_def)
    qed
    note G = get_u32_header [OF len8]
    let ?s = "\<lparr>total_length = hdr_total_length buf, num_entries = hdr_num_entries buf,
               sizes = None, descriptors = None, refcnt = 1\<rparr>"
    let ?h1 = "poke sd (Sd ?s) h0"
    have st: "store ?h1 = (store h)(sd \<mapsto> Sd ?s)"
      using A(2) by (auto simp: fun_eq_iff)
    show ?thesis
    proof (cases "ucast (hdr_total_length buf) > len")
      case True
      have "\<exists>h'. out_free_sd WIMLIB_ERR_INVALID_RESOURCE_SIZE sd_p sd ?h1
            = Some (WIMLIB_ERR_INVALID_RESOURCE_SIZE, sd_p, h') \<and> store h' = store h"
        by (rule cleanup_early [OF ok A(1), of ?h1 ?s]) (use st in auto)
      with run al Some G True show ?thesis
        by (auto simp: read_security_data_def Let_def)
    next
      case False
      show ?thesis
      proof (cases "hdr_num_entries buf = 0")
        case True
        have "load_table (poke sd (Sd (?s\<lparr>total_length := ucast (8 :: u64)\<rparr>)) ?h1) sd
            = Some (decoded_table buf)"
          using True by (simp add: load_table_def decoded_table_def decoded_entries_def)
        with run al Some G False True A(1) show ?thesis
          by (auto simp: read_security_data_def Let_def out_ok_def)
      next
        case ne: False
        have run': "read_entries buf sd_p sd ?s 8 ?h1 = Some (ret, sd_p', h')"
          using run al Some G False ne by (auto simp: read_security_data_def Let_def)
        have "(ret \<noteq> WIMLIB_ERR_SUCCESS \<and> sd_p' = sd_p \<and> store h' = store h) \<or>
           (ret = WIMLIB_ERR_SUCCESS \<and> sd_p' = Some sd \<and>
            load_table h' sd = Some (decoded_entries buf (num_entries ?s)))"
          by (rule read_entries_post [OF ok A(1) st _ _ _ _ _ _ run']) (use A ne in simp_all)
        with A(1) show ?thesis
          by (simp add: decoded_table_def)
      qed
    qed
  qed
qed

subsection \<open>The outcome when every allocation is granted\<close>

lemma sum_take_mono:
  "k \<le> k' \<Longrightarrow> sum_list (map unat (take k zs)) \<le> sum_list (map unat (take k' (zs :: u64 list)))"
proof -
  assume "k \<le> k'"
  then have "take k' zs = take k zs @ take (k' - k) (drop k zs)"
    by (metis le_add_diff_inverse take_add)
  then show ?thesis by simp
qed

lemma sum_take_le:
  "sum_list (map unat (take k zs)) \<le> sum_list (map unat (zs :: u64 list))"
  using sum_take_mono [of k "length zs" zs] by (cases "k \<le> length zs") simp_all

lemma unat_of_nat_u64: "q < 2 ^ 64 \<Longrightarrow> unat (of_nat q :: u64) = q"
  by (simp add: unat_of_nat)

lemma loop_inv_granted:
  assumes inv: "loop_inv h0 buf sd s a b zs ps i p total_len h"
    and all: "\<forall>k. malloc_ok h0 k"
  shows "\<exists>h1. MALLOC m h = (Some (next_addr h), h1)"
  using alloc_granted [of h Raw] loop_invD(17) [OF inv] all by (simp add: MALLOC_def)

lemma read_descriptors_iterate:
  assumes inv: "loop_inv h0 buf sd s a b zs ps i p total_len h"
    and all: "\<forall>k. malloc_ok h0 k"
    and lt: "i < num_entries s"
    and fits: "p + unat (zs ! unat i) \<le> unat (total_length s)"
    and buf: "unat (total_length s) \<le> length buf"
  shows "\<exists>ps' h'. read_descriptors buf sd_p sd s i p total_len h
           = read_descriptors buf sd_p sd s (i + 1) (p + unat (zs ! unat i)) (total_len + zs ! unat i) h' \<and>
         loop_inv h0 buf sd s a b zs ps' (i + 1) (p + unat (zs ! unat i)) (total_len + zs ! unat i) h'"
proof -
  note D = loop_invD [OF inv]
  let ?sz = "zs ! unat i"
  have sz: "sizes_at h s i = Some ?sz"
    using inv lt by (rule sizes_at_inv)
  have "unat (total_length s) < 2 ^ 32"
    using unsigned_less [of "total_length s"] by simp
  with fits have small: "p + unat ?sz < 2 ^ 64" by simp
  have "total_len + ?sz = of_nat (p + unat ?sz)"
    using D(19) by simp
  then have "unat (total_len + ?sz) = p + unat ?sz"
    using small by (simp only: unat_of_nat_u64)
  with fits have nover: "\<not> total_len + ?sz > ucast (total_length s)"
    by (simp add: word_less_nat_alt unat_ucast_u32_u64)
  from loop_inv_granted [OF inv all] obtain h1 where al: "MALLOC (unat ?sz) h = (Some (next_addr h), h1)"
    by blast
  note A = alloc_Some [OF al [unfolded MALLOC_def]]
  from lt have ui: "unat i < length ps"
    using D(8) by (simp add: word_less_nat_alt)
  have sb: "store h1 b = Some (Ptrs ps)"
    using A(2) D(6) D(13) [of b] by auto
  have set: "set_descriptor s i (Some (next_addr h)) h1
      = Some (poke b (Ptrs (ps[unat i := Some (next_addr h)])) h1)"
    by (rule set_descriptor_Some [OF D(2) sb ui])
  have gb: "get_bytes buf p (unat ?sz) = Some (take (unat ?sz) (drop p buf), p + unat ?sz)"
    using fits buf by (simp add: get_bytes_def)
  let ?h = "poke (next_addr h) (Bytes (take (unat ?sz) (drop p buf)))
              (poke b (Ptrs (ps[unat i := Some (next_addr h)])) h1)"
  have inv': "loop_inv h0 buf sd s a b zs (ps[unat i := Some (next_addr h)]) (i + 1) (p + unat ?sz)
         (total_len + ?sz) ?h"
    using inv lt al by (rule loop_inv_step)
  have "read_descriptors buf sd_p sd s i p total_len h
      = read_descriptors buf sd_p sd s (i + 1) (p + unat ?sz) (total_len + ?sz) ?h"
    using lt sz nover al set gb by (subst read_descriptors.simps) simp
  with inv' show ?thesis by blast
qed

lemma read_descriptors_succeeds:
  assumes "loop_inv h0 buf sd s a b zs ps i p total_len h"
    and all: "\<forall>k. malloc_ok h0 k"
    and fit: "8 + 8 * unat (num_entries s) + sum_list (map unat zs) \<le> unat (total_length s)"
    and buf: "unat (total_length s) \<le> length buf"
  shows "\<exists>h'. read_descriptors buf sd_p sd s i p total_len h = Some (WIMLIB_ERR_SUCCESS, Some sd, h')"
  using assms(1)
proof (induction "unat (num_entries s) - unat i" arbitrary: i ps p total_len h rule: less_induct)
  case less
  note inv = less.prems(1)
  note D = loop_invD [OF inv]
  show ?case
  proof (cases "i < num_entries s")
    case False
    then show ?thesis
      by (subst read_descriptors.simps) (simp add: out_ok_def)
  next
    case True
    then have ui: "unat i < length zs"
      using D(7) by (simp add: word_less_nat_alt)
    have "p + unat (zs ! unat i)
        = 8 + 8 * unat (num_entries s) + sum_list (map unat (take (Suc (unat i)) zs))"
      using D(18) ui by (simp add: take_Suc_conv_app_nth)
    also have "\<dots> \<le> 8 + 8 * unat (num_entries s) + sum_list (map unat zs)"
      using sum_take_le [of "Suc (unat i)" zs] by simp
    finally have fits: "p + unat (zs ! unat i) \<le> unat (total_length s)"
      using fit by simp
    from read_descriptors_iterate [OF inv all True fits buf, of sd_p]
    obtain ps' h' where step: "read_descriptors buf sd_p sd s i p total_len h
           = read_descriptors buf sd_p sd s (i + 1) (p + unat (zs ! unat i)) (total_len + zs ! unat i) h'"
      and inv': "loop_inv h0 buf sd s a b zs ps' (i + 1) (p + unat (zs ! unat i))
           (total_len + zs ! unat i) h'"
      by blast
    have "unat (num_entries s) - unat (i + 1) < unat (num_entries s) - unat i"
      using True by (simp add: unat_succ word_less_nat_alt)
    from less.hyps [OF this inv'] step show ?thesis by simp
  qed
qed



lemma unat_size_no_descriptors: "unat (8 + (ucast (n :: u32) :: u64) * 8) = 8 + 8 * unat n"
proof -
  have "unat n < 2 ^ 32"
    using unsigned_less [of n] by simp
  then have "8 + 8 * unat n < 2 ^ 64" by simp
  then have "unat (of_nat (8 + 8 * unat n) :: u64) = 8 + 8 * unat n"
    by (rule unat_of_nat_u64)
  then show ?thesis
    by (simp only: sizes_size_of_nat)
qed

lemma read_entries_granted:
  assumes ok: "heap_ok h0" and sd: "sd = next_addr h0"
    and st: "store h1 = (store h0)(sd \<mapsto> Sd s)" and nx: "next_addr h1 = Suc sd"
    and mo: "malloc_ok h1 = malloc_ok h0"
    and s: "sizes s = None" "descriptors s = None" "refcnt s = 1"
    and all: "\<forall>k. malloc_ok h0 k"
    and hdr: "8 + 8 * unat (num_entries s) \<le> unat (total_length s)"
    and buf: "unat (total_length s) \<le> length buf"
  shows "\<exists>a b h6. read_entries buf sd_p sd s 8 h1
            = read_descriptors buf sd_p sd (s\<lparr>sizes := Some a, descriptors := Some b\<rparr>) 0
                (8 + 8 * unat (num_entries s)) (8 + (ucast (num_entries s) :: u64) * 8) h6 \<and>
          loop_inv h0 buf sd (s\<lparr>sizes := Some a, descriptors := Some b\<rparr>) a b
            (array_to_le64 (take (8 * unat (num_entries s)) (drop 8 buf)) (unat (num_entries s)))
            (replicate (unat (num_entries s)) None) 0
            (8 + 8 * unat (num_entries s)) (8 + (ucast (num_entries s) :: u64) * 8) h6"
proof -
  let ?n = "unat (num_entries s)"
  let ?size = "unat ((ucast (num_entries s) :: u64) * 8)"
  have nover: "\<not> 8 + (ucast (num_entries s) :: u64) * 8 > ucast (total_length s)"
    using hdr by (simp add: word_less_nat_alt unat_ucast_u32_u64 unat_size_no_descriptors)
  from alloc_granted [of h1 Raw] all mo
  obtain h2 where al: "MALLOC ?size h1 = (Some (next_addr h1), h2)"
    by (auto simp: MALLOC_def)
  note A = alloc_Some [OF al [unfolded MALLOC_def]]
  define aa where "aa = Suc sd"
  have aa: "next_addr h1 = aa" using nx by (simp add: aa_def)
  let ?s2 = "s\<lparr>sizes := Some aa\<rparr>"
  let ?h3 = "poke sd (Sd ?s2) h2"
  have gb: "get_bytes buf 8 ?size = Some (take (8 * ?n) (drop 8 buf), 8 + 8 * ?n)"
    using hdr buf by (simp add: get_bytes_def unat_sizes_size)
  let ?zs = "array_to_le64 (take (8 * ?n) (drop 8 buf)) ?n"
  let ?h4 = "poke aa (U64s ?zs) ?h3"
  from alloc_granted [of ?h4 "Ptrs (replicate ?n None)"] all mo A(4)
  obtain h5 where ca: "CALLOC ?n 8 ?h4 = (Some (next_addr ?h4), h5)"
    by (auto simp: CALLOC_def)
  note C = alloc_Some [OF ca [unfolded CALLOC_def]]
  define ba where "ba = Suc (Suc sd)"
  have ba: "next_addr ?h4 = ba" using A(3) aa by (simp add: ba_def aa_def)
  let ?s3 = "s\<lparr>sizes := Some aa, descriptors := Some ba\<rparr>"
  let ?h6 = "poke sd (Sd ?s3) h5"
  let ?ps = "replicate ?n (None :: addr option)"
  have st6: "store ?h6 = (store h0)(sd \<mapsto> Sd ?s3, aa \<mapsto> U64s ?zs, ba \<mapsto> Ptrs ?ps)"
    using st A(2) C(2) aa ba by (auto simp: fun_eq_iff aa_def ba_def)
  have nx6: "next_addr ?h6 = Suc ba" using C(3) ba by simp
  have ok6: "heap_ok ?h6"
    using ok sd unfolding heap_ok_def st6 nx6 by (auto simp: aa_def ba_def)
  have inv: "loop_inv h0 buf sd ?s3 aa ba ?zs ?ps 0 (8 + 8 * ?n)
               (8 + (ucast (num_entries s) :: u64) * 8) ?h6"
    unfolding loop_inv_def st6 nx6
    using s ok ok6 sd mo A(4) C(4) by (auto simp: heap_ok_def aa_def ba_def)
  have "read_entries buf sd_p sd s 8 h1
      = read_descriptors buf sd_p sd ?s3 0 (8 + 8 * ?n) (8 + (ucast (num_entries s) :: u64) * 8) ?h6"
    using nover al gb ca aa ba by (simp add: read_entries_def Let_def)
  with inv show ?thesis by blast
qed

lemma read_security_data_header_step:
  assumes gr: "malloc_ok h (nallocs h)" and len8: "8 \<le> length buf"
  shows "\<exists>h0. store h0 = (store h)(next_addr h \<mapsto> Raw) \<and> next_addr h0 = Suc (next_addr h) \<and>
           malloc_ok h0 = malloc_ok h \<and>
           read_security_data buf len sd_p h =
             (let s = \<lparr>total_length = hdr_total_length buf, num_entries = hdr_num_entries buf,
                       sizes = None, descriptors = None, refcnt = 1\<rparr>;
                  h1 = poke (next_addr h) (Sd s) h0
              in if ucast (hdr_total_length buf) > len
                 then out_free_sd WIMLIB_ERR_INVALID_RESOURCE_SIZE sd_p (next_addr h) h1
                 else if hdr_num_entries buf = 0 then out_ok (next_addr h) s 8 h1
                 else read_entries buf sd_p (next_addr h) s 8 h1)"
proof -
  from alloc_granted [OF gr, of Raw]
  obtain h0 where al: "MALLOC sizeof_wim_security_data h = (Some (next_addr h), h0)"
    by (auto simp: MALLOC_def)
  note A = alloc_Some [OF al [unfolded MALLOC_def]]
  note G = get_u32_header [OF len8]
  show ?thesis
    using A(2,3,4) al G
    by (intro exI [of _ h0]) (simp add: read_security_data_def Let_def)
qed

lemma read_security_data_bounds:
  assumes ok: "heap_ok h" and gr: "malloc_ok h (nallocs h)" and len8: "8 \<le> length buf"
    and big: "ucast (hdr_total_length buf) > len"
  shows "\<exists>h'. read_security_data buf len sd_p h = Some (WIMLIB_ERR_INVALID_RESOURCE_SIZE, sd_p, h') \<and>
           store h' = store h"
proof -
  from read_security_data_header_step [OF gr len8, of len sd_p]
  obtain h0 where h0: "store h0 = (store h)(next_addr h \<mapsto> Raw)"
    and run: "read_security_data buf len sd_p h
      = out_free_sd WIMLIB_ERR_INVALID_RESOURCE_SIZE sd_p (next_addr h)
          (poke (next_addr h) (Sd \<lparr>total_length = hdr_total_length buf,
             num_entries = hdr_num_entries buf, sizes = None, descriptors = None, refcnt = 1\<rparr>) h0)"
    using big by (auto simp: Let_def)
  let ?s = "\<lparr>total_length = hdr_total_length buf, num_entries = hdr_num_entries buf,
             sizes = None, descriptors = None, refcnt = 1\<rparr>"
  have "\<exists>h'. out_free_sd WIMLIB_ERR_INVALID_RESOURCE_SIZE sd_p (next_addr h) (poke (next_addr h) (Sd ?s) h0)
          = Some (WIMLIB_ERR_INVALID_RESOURCE_SIZE, sd_p, h') \<and> store h' = store h"
    by (rule cleanup_early [OF ok refl, of _ ?s]) (use h0 in auto)
  with run show ?thesis by simp
qed

lemma read_security_data_succeeds:
  assumes ok: "heap_ok h" and all: "\<forall>k. malloc_ok h k" and len8: "8 \<le> length buf"
    and buf: "unat len \<le> length buf"
    and tl: "unat (hdr_total_length buf) \<le> unat len"
    and fit: "hdr_num_entries buf \<noteq> 0 \<longrightarrow>
       8 + 8 * unat (hdr_num_entries buf) + sum_list (map unat (tbl_sizes (decoded_table buf)))
         \<le> unat (hdr_total_length buf)"
  shows "\<exists>h'. read_security_data buf len sd_p h = Some (WIMLIB_ERR_SUCCESS, Some (next_addr h), h') \<and>
           load_table h' (next_addr h) = Some (decoded_table buf)"
proof -
  let ?s = "\<lparr>total_length = hdr_total_length buf, num_entries = hdr_num_entries buf,
             sizes = None, descriptors = None, refcnt = 1\<rparr>"
  have nbig: "\<not> ucast (hdr_total_length buf) > len"
    using tl by (simp add: word_less_nat_alt unat_ucast_u32_u64)
  from all have gr: "malloc_ok h (nallocs h)" by simp
  from read_security_data_header_step [OF gr len8, of len sd_p]
  obtain h0 where h0: "store h0 = (store h)(next_addr h \<mapsto> Raw)" "next_addr h0 = Suc (next_addr h)"
      "malloc_ok h0 = malloc_ok h"
    and run: "read_security_data buf len sd_p h
      = (if hdr_num_entries buf = 0 then out_ok (next_addr h) ?s 8 (poke (next_addr h) (Sd ?s) h0)
         else read_entries buf sd_p (next_addr h) ?s 8 (poke (next_addr h) (Sd ?s) h0))"
    using nbig by (auto simp: Let_def)
  have "\<exists>h'. read_security_data buf len sd_p h = Some (WIMLIB_ERR_SUCCESS, Some (next_addr h), h')"
  proof (cases "hdr_num_entries buf = 0")
    case True
    with run show ?thesis by (simp add: out_ok_def)
  next
    case False
    let ?h1 = "poke (next_addr h) (Sd ?s) h0"
    have st: "store ?h1 = (store h)(next_addr h \<mapsto> Sd ?s)"
      using h0(1) by (auto simp: fun_eq_iff)
    from fit False have fit': "8 + 8 * unat (hdr_num_entries buf)
         + sum_list (map unat (array_to_le64 (take (8 * unat (hdr_num_entries buf)) (drop 8 buf))
              (unat (hdr_num_entries buf)))) \<le> unat (hdr_total_length buf)"
      by (simp add: decoded_table_def decoded_entries_def Let_def)
    then have hdr: "8 + 8 * unat (num_entries ?s) \<le> unat (total_length ?s)" by simp
    have bl: "unat (total_length ?s) \<le> length buf" using tl buf by simp
    from read_entries_granted [OF ok refl st _ _ _ _ _ all hdr bl, of sd_p]
    obtain a b h6 where re: "read_entries buf sd_p (next_addr h) ?s 8 ?h1
            = read_descriptors buf sd_p (next_addr h) (?s\<lparr>sizes := Some a, descriptors := Some b\<rparr>) 0
                (8 + 8 * unat (num_entries ?s)) (8 + (ucast (num_entries ?s) :: u64) * 8) h6"
      and inv: "loop_inv h buf (next_addr h) (?s\<lparr>sizes := Some a, descriptors := Some b\<rparr>) a b
            (array_to_le64 (take (8 * unat (num_entries ?s)) (drop 8 buf)) (unat (num_entries ?s)))
            (replicate (unat (num_entries ?s)) None) 0
            (8 + 8 * unat (num_entries ?s)) (8 + (ucast (num_entries ?s) :: u64) * 8) h6"
      using h0 by auto
    have "\<exists>h'. read_descriptors buf sd_p (next_addr h) (?s\<lparr>sizes := Some a, descriptors := Some b\<rparr>) 0
                (8 + 8 * unat (num_entries ?s)) (8 + (ucast (num_entries ?s) :: u64) * 8) h6
              = Some (WIMLIB_ERR_SUCCESS, Some (next_addr h), h')"
      by (rule read_descriptors_succeeds [OF inv all]) (use fit' bl in simp_all)
    with run re False show ?thesis by simp
  qed
  then obtain h' where r: "read_security_data buf len sd_p h
      = Some (WIMLIB_ERR_SUCCESS, Some (next_addr h), h')"
    by blast
  from read_security_data_post [OF ok r] r show ?thesis by simp
qed


subsection \<open>The call is defined\<close>

lemma read_descriptors_defined:
  assumes "loop_inv h0 buf sd s a b zs ps i p total_len h"
    and "nallocs h = N + unat i"
    and buf: "unat (total_length s) \<le> length buf"
    and "p \<le> unat (total_length s)"
    and ref: "\<forall>j < unat (num_entries s).
        8 + 8 * unat (num_entries s) + sum_list (map unat (take j zs)) \<le> unat (total_length s) \<and>
        2 ^ 64 \<le> 8 + 8 * unat (num_entries s) + sum_list (map unat (take (Suc j) zs))
        \<longrightarrow> \<not> malloc_ok h0 (N + j)"
  shows "read_descriptors buf sd_p sd s i p total_len h \<noteq> None"
  using assms(1,2,4)
proof (induction "unat (num_entries s) - unat i" arbitrary: i ps p total_len h rule: less_induct)
  case less
  note inv = less.prems(1) and na = less.prems(2) and ple = less.prems(3)
  note D = loop_invD [OF inv]
  show ?case
  proof (cases "i < num_entries s")
    case False
    then show ?thesis
      by (subst read_descriptors.simps) (simp add: out_ok_def)
  next
    case True
    then have ui: "unat i < unat (num_entries s)"
      by (simp add: word_less_nat_alt)
    let ?sz = "zs ! unat i"
    have sz: "sizes_at h s i = Some ?sz"
      using inv True by (rule sizes_at_inv)
    have q: "p + unat ?sz
        = 8 + 8 * unat (num_entries s) + sum_list (map unat (take (Suc (unat i)) zs))"
      using D(18) D(7) ui by (simp add: take_Suc_conv_app_nth)
    show ?thesis
    proof (cases "total_len + ?sz > ucast (total_length s)")
      case over: True
      from loop_inv_cleanup [OF inv, of WIMLIB_ERR_INVALID_RESOURCE_SIZE sd_p]
      obtain h1 where "out_free_sd WIMLIB_ERR_INVALID_RESOURCE_SIZE sd_p sd h
            = Some (WIMLIB_ERR_INVALID_RESOURCE_SIZE, sd_p, h1)"
        by blast
      with True sz over show ?thesis
        by (subst read_descriptors.simps) simp
    next
      case fits: False
      obtain d h1 where al: "MALLOC (unat ?sz) h = (d, h1)"
        by (cases "MALLOC (unat ?sz) h") auto
      show ?thesis
      proof (cases d)
        case None
        from loop_inv_alloc_failed [OF inv True al [unfolded None]]
        obtain h2 where h2: "set_descriptor s i None h1 = Some h2"
          "loop_inv h0 buf sd s a b zs ps i p total_len h2"
          by blast
        from loop_inv_cleanup [OF h2(2), of WIMLIB_ERR_NOMEM sd_p]
        obtain h3 where "out_free_sd WIMLIB_ERR_NOMEM sd_p sd h2 = Some (WIMLIB_ERR_NOMEM, sd_p, h3)"
          by blast
        with True sz fits al None h2(1) show ?thesis
          by (subst read_descriptors.simps) simp
      next
        case (Some da)
        note A = alloc_Some [OF al [unfolded Some MALLOC_def]]
        have granted: "malloc_ok h0 (N + unat i)"
          using A(5) D(17) na by simp
        have small: "p + unat ?sz < 2 ^ 64"
        proof (rule ccontr)
          assume "\<not> p + unat ?sz < 2 ^ 64"
          then have "2 ^ 64 \<le> 8 + 8 * unat (num_entries s)
              + sum_list (map unat (take (Suc (unat i)) zs))"
            using q by simp
          moreover have "8 + 8 * unat (num_entries s) + sum_list (map unat (take (unat i) zs))
              \<le> unat (total_length s)"
            using ple D(18) by simp
          ultimately have "\<not> malloc_ok h0 (N + unat i)"
            using ref ui by blast
          with granted show False by simp
        qed
        have "total_len + ?sz = of_nat (p + unat ?sz)"
          using D(19) by simp
        then have "unat (total_len + ?sz) = p + unat ?sz"
          using small by (simp only: unat_of_nat_u64)
        with fits have ple': "p + unat ?sz \<le> unat (total_length s)"
          by (simp add: word_less_nat_alt unat_ucast_u32_u64)
        have ul: "unat i < length ps"
          using ui D(8) by simp
        have sb: "store h1 b = Some (Ptrs ps)"
          using A(1,2) D(6) D(13) [of b] by auto
        have set: "set_descriptor s i (Some da) h1 = Some (poke b (Ptrs (ps[unat i := Some da])) h1)"
          by (rule set_descriptor_Some [OF D(2) sb ul])
        have gb: "get_bytes buf p (unat ?sz) = Some (take (unat ?sz) (drop p buf), p + unat ?sz)"
          using ple' buf by (simp add: get_bytes_def)
        let ?h = "poke da (Bytes (take (unat ?sz) (drop p buf))) (poke b (Ptrs (ps[unat i := Some da])) h1)"
        have inv': "loop_inv h0 buf sd s a b zs (ps[unat i := Some da]) (i + 1) (p + unat ?sz)
               (total_len + ?sz) ?h"
          using inv True al [unfolded \<open>d = Some da\<close>] by (rule loop_inv_step)
        have suc: "unat (i + 1) = Suc (unat i)"
          using True by (rule unat_succ)
        have na': "nallocs ?h = N + unat (i + 1)"
          using A(6) na suc by simp
        have step: "read_descriptors buf sd_p sd s i p total_len h
            = read_descriptors buf sd_p sd s (i + 1) (p + unat ?sz) (total_len + ?sz) ?h"
          using True sz fits al \<open>d = Some da\<close> set gb by (subst read_descriptors.simps) simp
        have "unat (num_entries s) - unat (i + 1) < unat (num_entries s) - unat i"
          using ui by (simp add: suc)
        from less.hyps [OF this inv' na' ple'] step show ?thesis by simp
      qed
    qed
  qed
qed

lemma read_entries_defined:
  assumes ok: "heap_ok h0" and sd: "sd = next_addr h0"
    and st: "store h1 = (store h0)(sd \<mapsto> Sd s)" and nx: "next_addr h1 = Suc sd"
    and mo: "malloc_ok h1 = malloc_ok h0" and na: "nallocs h1 = Suc (nallocs h0)"
    and s: "sizes s = None" "descriptors s = None" "refcnt s = 1"
    and buf: "unat (total_length s) \<le> length buf"
    and ref: "\<forall>j < unat (num_entries s).
        8 + 8 * unat (num_entries s)
          + sum_list (map unat (take j (array_to_le64 (take (8 * unat (num_entries s)) (drop 8 buf))
               (unat (num_entries s))))) \<le> unat (total_length s) \<and>
        2 ^ 64 \<le> 8 + 8 * unat (num_entries s)
          + sum_list (map unat (take (Suc j) (array_to_le64 (take (8 * unat (num_entries s)) (drop 8 buf))
               (unat (num_entries s)))))
        \<longrightarrow> \<not> malloc_ok h0 (nallocs h0 + 3 + j)"
  shows "read_entries buf sd_p sd s 8 h1 \<noteq> None"
proof (cases "8 + (ucast (num_entries s) :: u64) * 8 > ucast (total_length s)")
  case True
  have "\<exists>h'. out_free_sd WIMLIB_ERR_INVALID_RESOURCE_SIZE sd_p sd h1
          = Some (WIMLIB_ERR_INVALID_RESOURCE_SIZE, sd_p, h') \<and> store h' = store h0"
    by (rule cleanup_early [OF ok sd, of h1 s]) (use st s in auto)
  with True show ?thesis
    by (auto simp: read_entries_def Let_def)
next
  case False
  let ?n = "unat (num_entries s)"
  let ?size = "unat ((ucast (num_entries s) :: u64) * 8)"
  from False have hdr: "8 + 8 * ?n \<le> unat (total_length s)"
    by (simp add: word_less_nat_alt unat_ucast_u32_u64 unat_size_no_descriptors)
  obtain a h2 where al: "MALLOC ?size h1 = (a, h2)"
    by (cases "MALLOC ?size h1") auto
  show ?thesis
  proof (cases a)
    case None
    note A = alloc_None [OF al [unfolded None MALLOC_def]]
    let ?h3 = "poke sd (Sd (s\<lparr>sizes := None\<rparr>)) h2"
    have "\<exists>h'. out_free_sd WIMLIB_ERR_NOMEM sd_p sd ?h3
          = Some (WIMLIB_ERR_NOMEM, sd_p, h') \<and> store h' = store h0"
      by (rule cleanup_early [OF ok sd, of ?h3 "s\<lparr>sizes := None\<rparr>"]) (use st s A in auto)
    with False al None show ?thesis
      by (auto simp: read_entries_def Let_def)
  next
    case (Some aa)
    note A = alloc_Some [OF al [unfolded Some MALLOC_def]]
    have aa: "aa = Suc sd" using A(1) nx by simp
    let ?s2 = "s\<lparr>sizes := Some aa\<rparr>"
    let ?h3 = "poke sd (Sd ?s2) h2"
    have gb: "get_bytes buf 8 ?size = Some (take (8 * ?n) (drop 8 buf), 8 + 8 * ?n)"
      using hdr buf by (simp add: get_bytes_def unat_sizes_size)
    let ?zs = "array_to_le64 (take (8 * ?n) (drop 8 buf)) ?n"
    let ?h4 = "poke aa (U64s ?zs) ?h3"
    obtain b h5 where ca: "CALLOC ?n 8 ?h4 = (b, h5)"
      by (cases "CALLOC ?n 8 ?h4") auto
    show ?thesis
    proof (cases b)
      case None
      note C = alloc_None [OF ca [unfolded None CALLOC_def]]
      let ?h6 = "poke sd (Sd (?s2\<lparr>descriptors := None\<rparr>)) h5"
      have "\<exists>h'. out_free_sd WIMLIB_ERR_NOMEM sd_p sd ?h6
          = Some (WIMLIB_ERR_NOMEM, sd_p, h') \<and> store h' = store h0"
        by (rule cleanup_early [OF ok sd, of ?h6 "?s2\<lparr>descriptors := None\<rparr>"])
          (use st s A C aa in auto)
      with False al \<open>a = Some aa\<close> gb ca None show ?thesis
        by (auto simp: read_entries_def Let_def)
    next
      case (Some ba)
      note C = alloc_Some [OF ca [unfolded Some CALLOC_def]]
      have ba: "ba = Suc (Suc sd)" using C(1) A(3) aa by simp
      let ?s3 = "?s2\<lparr>descriptors := Some ba\<rparr>"
      let ?h6 = "poke sd (Sd ?s3) h5"
      let ?ps = "replicate ?n (None :: addr option)"
      have st6: "store ?h6 = (store h0)(sd \<mapsto> Sd ?s3, aa \<mapsto> U64s ?zs, ba \<mapsto> Ptrs ?ps)"
        using st A(2) C(2) aa ba by (auto simp: fun_eq_iff)
      have nx6: "next_addr ?h6 = Suc ba" using C(3) by simp
      have ok6: "heap_ok ?h6"
        using ok sd aa ba unfolding heap_ok_def st6 nx6 by auto
      have inv: "loop_inv h0 buf sd ?s3 aa ba ?zs ?ps 0 (8 + 8 * ?n)
                   (8 + (ucast (num_entries s) :: u64) * 8) ?h6"
        unfolding loop_inv_def st6 nx6
        using s ok ok6 aa ba sd mo A(4) C(4) by (auto simp: heap_ok_def)
      have na6: "nallocs ?h6 = (nallocs h0 + 3) + unat (0 :: u32)"
        using A(6) C(6) na by simp
      have "read_descriptors buf sd_p sd ?s3 0 (8 + 8 * ?n)
              (8 + (ucast (num_entries s) :: u64) * 8) ?h6 \<noteq> None"
        by (rule read_descriptors_defined [OF inv na6]) (use buf hdr ref in simp_all)
      moreover have "read_entries buf sd_p sd s 8 h1
          = read_descriptors buf sd_p sd ?s3 0 (8 + 8 * ?n) (8 + (ucast (num_entries s) :: u64) * 8) ?h6"
        using False al \<open>a = Some aa\<close> gb ca Some by (simp add: read_entries_def Let_def)
      ultimately show ?thesis by simp
    qed
  qed
qed

lemma read_security_data_defined:
  assumes ok: "heap_ok h" and len8: "8 \<le> length buf" and buf: "unat len \<le> length buf"
    and ref: "wrapped_requests_refused buf h"
  shows "read_security_data buf len sd_p h \<noteq> None"
proof -
  obtain sdo h0 where al: "MALLOC sizeof_wim_security_data h = (sdo, h0)"
    by (cases "MALLOC sizeof_wim_security_data h") auto
  show ?thesis
  proof (cases sdo)
    case None
    with al show ?thesis
      by (simp add: read_security_data_def)
  next
    case (Some sd)
    note A = alloc_Some [OF al [unfolded Some MALLOC_def]]
    note G = get_u32_header [OF len8]
    let ?s = "\<lparr>total_length = hdr_total_length buf, num_entries = hdr_num_entries buf,
               sizes = None, descriptors = None, refcnt = 1\<rparr>"
    let ?h1 = "poke sd (Sd ?s) h0"
    have st: "store ?h1 = (store h)(sd \<mapsto> Sd ?s)"
      using A(2) by (auto simp: fun_eq_iff)
    show ?thesis
    proof (cases "ucast (hdr_total_length buf) > len")
      case True
      have "\<exists>h'. out_free_sd WIMLIB_ERR_INVALID_RESOURCE_SIZE sd_p sd ?h1
            = Some (WIMLIB_ERR_INVALID_RESOURCE_SIZE, sd_p, h') \<and> store h' = store h"
        by (rule cleanup_early [OF ok A(1), of ?h1 ?s]) (use st in auto)
      with al Some G True show ?thesis
        by (auto simp: read_security_data_def Let_def)
    next
      case False
      then have tl: "unat (hdr_total_length buf) \<le> length buf"
        using buf by (simp add: word_less_nat_alt unat_ucast_u32_u64)
      show ?thesis
      proof (cases "hdr_num_entries buf = 0")
        case True
        with al Some G False show ?thesis
          by (simp add: read_security_data_def Let_def out_ok_def)
      next
        case ne: False
        have zs: "tbl_sizes (decoded_table buf)
            = array_to_le64 (take (8 * unat (hdr_num_entries buf)) (drop 8 buf)) (unat (hdr_num_entries buf))"
          by (simp add: decoded_table_def decoded_entries_def Let_def)
        have "read_entries buf sd_p sd ?s 8 ?h1 \<noteq> None"
          by (rule read_entries_defined [OF ok A(1) st])
            (use A tl ref in \<open>simp_all add: wrapped_requests_refused_def zs\<close>)
        with al Some G False ne show ?thesis
          by (simp add: read_security_data_def Let_def)
      qed
    qed
  qed
qed

subsection \<open>Writing a table, and reading it back\<close>

lemma length_put_u32 [simp]: "length (put_u32 v) = 4"
  by (simp add: put_u32_def)

lemma length_put_u64 [simp]: "length (put_u64 v) = 8"
  by (simp add: put_u64_def)

lemma length_concat_put_u64 [simp]: "length (concat (map put_u64 zs)) = 8 * length zs"
  by (induction zs) simp_all

lemma length_concat_descriptors:
  "list_all2 (\<lambda>z d. length d = unat z) zs ds \<Longrightarrow> length (concat ds) = sum_list (map unat zs)"
  by (induction zs ds rule: list_all2_induct) simp_all

lemma length_table_bytes:
  assumes "valid_table T"
  shows "length (table_bytes T) = unat (tbl_total_length T)"
  using assms by (simp add: valid_table_def table_bytes_def length_concat_descriptors)

lemma those_SomeD:
  "those xs = Some ys \<Longrightarrow> length ys = length xs \<and> (\<forall>k < length xs. xs ! k = Some (ys ! k))"
proof (induction xs arbitrary: ys)
  case Nil
  then show ?case by simp
next
  case (Cons x xs)
  then obtain y ys' where x: "x = Some y" and ys': "those xs = Some ys'" and ys: "ys = y # ys'"
    by (auto split: option.splits)
  from Cons.IH [OF ys'] x ys show ?case
    by (auto simp: nth_Cons split: nat.splits)
qed

lemma write_sizes_all:
  assumes a: "sizes s = Some a" "store h a = Some (U64s zs)" "length zs = unat (num_entries s)"
    and i: "i \<le> num_entries s"
  shows "write_sizes h s i out = Some (out @ concat (map put_u64 (drop (unat i) zs)))"
  using i
proof (induction "unat (num_entries s) - unat i" arbitrary: i out rule: less_induct)
  case less
  show ?case
  proof (cases "i < num_entries s")
    case False
    with less.prems have "i = num_entries s" by simp
    with a False show ?thesis
      by (subst write_sizes.simps) simp
  next
    case True
    then have ui: "unat i < length zs"
      using a(3) by (simp add: word_less_nat_alt)
    have sz: "sizes_at h s i = Some (zs ! unat i)"
      using a ui by (simp add: sizes_at_def)
    have suc: "unat (i + 1) = Suc (unat i)"
      using True by (rule unat_succ)
    have "unat (num_entries s) - unat (i + 1) < unat (num_entries s) - unat i"
      using True by (simp add: suc word_less_nat_alt)
    from less.hyps [OF this inc_le [OF True], of "out @ put_u64 (zs ! unat i)"]
    have "write_sizes h s (i + 1) (out @ put_u64 (zs ! unat i))
        = Some (out @ put_u64 (zs ! unat i) @ concat (map put_u64 (drop (Suc (unat i)) zs)))"
      by (simp add: suc)
    moreover have "drop (unat i) zs = zs ! unat i # drop (Suc (unat i)) zs"
      using ui by (simp add: Cons_nth_drop_Suc)
    ultimately show ?thesis
      using True sz by (subst write_sizes.simps) simp
  qed
qed

lemma write_descriptors_all:
  assumes a: "sizes s = Some a" "store h a = Some (U64s zs)" "length zs = unat (num_entries s)"
    and b: "descriptors s = Some b" "store h b = Some (Ptrs ps)" "length ps = unat (num_entries s)"
    and ds: "length ds = unat (num_entries s)" "\<forall>k < length ps. bytes_at h (ps ! k) = Some (ds ! k)"
      "\<forall>k < length ds. length (ds ! k) = unat (zs ! k)"
    and i: "i \<le> num_entries s"
  shows "write_descriptors h s i out = Some (out @ concat (drop (unat i) ds))"
  using i
proof (induction "unat (num_entries s) - unat i" arbitrary: i out rule: less_induct)
  case less
  show ?case
  proof (cases "i < num_entries s")
    case False
    with less.prems have "i = num_entries s" by simp
    with ds False show ?thesis
      by (subst write_descriptors.simps) simp
  next
    case True
    then have ui: "unat i < unat (num_entries s)"
      by (simp add: word_less_nat_alt)
    have sz: "sizes_at h s i = Some (zs ! unat i)"
      using a ui by (simp add: sizes_at_def)
    have "bytes_at h (ps ! unat i) = Some (ds ! unat i)"
      using ds(2) ui b(3) by simp
    then have de: "descriptor_at h s i = Some (ds ! unat i)"
      using b ui by (auto simp: descriptor_at_def bytes_at_def split: option.splits block.splits)
    have pb: "put_bytes (unat (zs ! unat i)) (ds ! unat i) = Some (ds ! unat i)"
      using ds(1,3) ui by (simp add: put_bytes_def)
    have suc: "unat (i + 1) = Suc (unat i)"
      using True by (rule unat_succ)
    have "unat (num_entries s) - unat (i + 1) < unat (num_entries s) - unat i"
      using True by (simp add: suc word_less_nat_alt)
    from less.hyps [OF this inc_le [OF True], of "out @ ds ! unat i"]
    have "write_descriptors h s (i + 1) (out @ ds ! unat i)
        = Some (out @ ds ! unat i @ concat (drop (Suc (unat i)) ds))"
      by (simp add: suc)
    moreover have "drop (unat i) ds = ds ! unat i # drop (Suc (unat i)) ds"
      using ui ds(1) by (simp add: Cons_nth_drop_Suc)
    ultimately show ?thesis
      using True sz de pb by (subst write_descriptors.simps) simp
  qed
qed

lemma write_security_data_written:
  assumes T: "load_table h sd = Some T"
    and lz: "length (tbl_sizes T) = unat (tbl_num_entries T)"
    and la: "list_all2 (\<lambda>z d. length d = unat z) (tbl_sizes T) (tbl_descriptors T)"
  shows "write_security_data sd h
           = (if length (table_bytes T) = unat (tbl_total_length T) then Some (table_bytes T) else None)"
proof -
  from T obtain s where s: "store h sd = Some (Sd s)"
    by (auto simp: load_table_def split: option.splits block.splits)
  show ?thesis
  proof (cases "num_entries s = 0")
    case True
    with T s have Tv: "T = \<lparr>tbl_total_length = total_length s, tbl_num_entries = 0, tbl_sizes = [],
        tbl_descriptors = []\<rparr>"
      by (simp add: load_table_def)
    have "write_sizes h s 0 out = Some out" for out
      using True by (subst write_sizes.simps) simp
    moreover have "write_descriptors h s 0 out = Some out" for out
      using True by (subst write_descriptors.simps) simp
    ultimately show ?thesis
      using s True unfolding Tv by (simp add: write_security_data_def table_bytes_def)
  next
    case False
    with T s obtain a b zs ps ds where a: "sizes s = Some a" "store h a = Some (U64s zs)"
      and b: "descriptors s = Some b" "store h b = Some (Ptrs ps)"
      and th: "those (map (bytes_at h) ps) = Some ds"
      and Tv: "T = \<lparr>tbl_total_length = total_length s, tbl_num_entries = num_entries s,
          tbl_sizes = zs, tbl_descriptors = ds\<rparr>"
      by (auto simp: load_table_def split: option.splits block.splits)
    from lz la have lz: "length zs = unat (num_entries s)"
      and la: "list_all2 (\<lambda>z d. length d = unat z) zs ds"
      by (simp_all add: Tv)
    from la have ld: "length ds = unat (num_entries s)"
      using lz by (simp add: list_all2_lengthD)
    from those_SomeD [OF th] have lp: "length ps = unat (num_entries s)"
      and bt: "\<forall>k < length ps. bytes_at h (ps ! k) = Some (ds ! k)"
      using ld by auto
    from la have dl: "\<forall>k < length ds. length (ds ! k) = unat (zs ! k)"
      by (simp add: list_all2_conv_all_nth)
    have w1: "write_sizes h s 0 out = Some (out @ concat (map put_u64 zs))" for out
      using write_sizes_all [OF a lz, of 0 out] by simp
    have w2: "write_descriptors h s 0 out = Some (out @ concat ds)" for out
      using write_descriptors_all [OF a lz b lp ld bt dl, of 0 out] by simp
    show ?thesis
      using s w1 w2 unfolding Tv by (simp add: write_security_data_def table_bytes_def)
  qed
qed

lemma write_security_data_bytes:
  assumes T: "load_table h sd = Some T" and v: "valid_table T"
  shows "write_security_data sd h = Some (table_bytes T)"
proof -
  from v have "length (tbl_sizes T) = unat (tbl_num_entries T)"
    and "list_all2 (\<lambda>z d. length d = unat z) (tbl_sizes T) (tbl_descriptors T)"
    by (simp_all add: valid_table_def)
  from write_security_data_written [OF T this] length_table_bytes [OF v] show ?thesis
    by simp
qed

lemma length_big_descriptor: "length big_descriptor = 4294967296"
  by (simp add: big_descriptor_def)

lemma byte_index: "\<exists>k m. (n::nat) = 8 * k + m \<and> m < 8"
  by (rule exI [of _ "n div 8"], rule exI [of _ "n mod 8"]) simp

lemma le32_put_u32 [simp]: "le32 (put_u32 w) = w"
proof (rule bit_word_eqI)
  fix n :: nat
  assume n: "n < LENGTH(32)"
  obtain k m where km: "n = 8 * k + m" "m < 8"
    using byte_index by blast
  with n have "k < 4" by simp
  then have "k = 0 \<or> k = 1 \<or> k = 2 \<or> k = 3" by linarith
  then show "bit (le32 (put_u32 w)) n = bit w n"
    using km(2) by (elim disjE) (simp_all add: km(1) le32_def put_u32_def bit_simps)
qed

lemma le64_put_u64 [simp]: "le64 (put_u64 w) = w"
proof (rule bit_word_eqI)
  fix n :: nat
  assume n: "n < LENGTH(64)"
  obtain k m where km: "n = 8 * k + m" "m < 8"
    using byte_index by blast
  with n have "k < 8" by simp
  then have "k = 0 \<or> k = 1 \<or> k = 2 \<or> k = 3 \<or> k = 4 \<or> k = 5 \<or> k = 6 \<or> k = 7" by linarith
  then show "bit (le64 (put_u64 w)) n = bit w n"
    using km(2) by (elim disjE) (simp_all add: km(1) le64_def put_u64_def bit_simps)
qed

lemma array_to_le64_put: "array_to_le64 (concat (map put_u64 zs)) (length zs) = zs"
  by (induction zs) simp_all

lemma split_descriptors_concat:
  "list_all2 (\<lambda>z d. length d = unat z) zs ds \<Longrightarrow>
   split_descriptors (pre @ concat ds) (length pre) zs = ds"
proof (induction zs ds arbitrary: pre rule: list_all2_induct)
  case Nil
  then show ?case by simp
next
  case (Cons z zs d ds)
  from Cons.IH [of "pre @ d"] Cons.hyps(1) show ?case
    by simp
qed

lemma hdr_table_bytes [simp]:
  "hdr_total_length (table_bytes T) = tbl_total_length T"
  "hdr_num_entries (table_bytes T) = tbl_num_entries T"
  by (simp_all add: hdr_total_length_def hdr_num_entries_def table_bytes_def)

lemma decoded_table_bytes:
  assumes v: "valid_table T"
  shows "decoded_table (table_bytes T) = T"
proof -
  let ?n = "unat (tbl_num_entries T)"
  let ?pre = "put_u32 (tbl_total_length T) @ put_u32 (tbl_num_entries T)
       @ concat (map put_u64 (tbl_sizes T))"
  from v have lz: "length (tbl_sizes T) = ?n"
    and la: "list_all2 (\<lambda>z d. length d = unat z) (tbl_sizes T) (tbl_descriptors T)"
    and tl: "unat (tbl_total_length T) = 8 + 8 * ?n + sum_list (map unat (tbl_sizes T))"
    by (simp_all add: valid_table_def)
  have "take (8 * ?n) (drop 8 (table_bytes T)) = concat (map put_u64 (tbl_sizes T))"
    using lz by (simp add: table_bytes_def)
  then have zs: "array_to_le64 (take (8 * ?n) (drop 8 (table_bytes T))) ?n = tbl_sizes T"
    using array_to_le64_put [of "tbl_sizes T"] lz by simp
  have "length ?pre = 8 + 8 * ?n"
    using lz by simp
  moreover have "table_bytes T = ?pre @ concat (tbl_descriptors T)"
    by (simp add: table_bytes_def)
  ultimately have ds: "split_descriptors (table_bytes T) (8 + 8 * ?n) (tbl_sizes T) = tbl_descriptors T"
    using split_descriptors_concat [OF la, of ?pre] by simp
  have "(of_nat (8 + 8 * ?n + sum_list (map unat (tbl_sizes T))) :: u32) = tbl_total_length T"
    unfolding tl [symmetric] by simp
  with zs ds show ?thesis
    by (simp add: decoded_table_def decoded_entries_def Let_def)
qed

lemma round_trip:
  assumes T: "load_table h sd = Some T" and v: "valid_table T"
    and ok: "heap_ok h1" and all: "\<forall>k. malloc_ok h1 k"
  shows "\<exists>h'. write_security_data sd h = Some (table_bytes T) \<and>
           length (table_bytes T) = unat (tbl_total_length T) \<and>
           read_security_data (table_bytes T) (of_nat (length (table_bytes T))) sd_p h1
             = Some (WIMLIB_ERR_SUCCESS, Some (next_addr h1), h') \<and>
           load_table h' (next_addr h1) = Some T"
proof -
  let ?buf = "table_bytes T"
  have len: "length ?buf = unat (tbl_total_length T)"
    using v by (rule length_table_bytes)
  have ul: "unat (of_nat (length ?buf) :: u64) = length ?buf"
    unfolding len by (simp add: unat_ucast_u32_u64)
  have len8: "8 \<le> length ?buf"
    using v by (simp add: len valid_table_def)
  have dec: "decoded_table ?buf = T"
    using v by (rule decoded_table_bytes)
  have c1: "unat (of_nat (length ?buf) :: u64) \<le> length ?buf"
    using ul by simp
  have c2: "unat (hdr_total_length ?buf) \<le> unat (of_nat (length ?buf) :: u64)"
    by (simp add: len unat_ucast_u32_u64)
  have "8 + 8 * unat (tbl_num_entries T) + sum_list (map unat (tbl_sizes T))
      \<le> unat (tbl_total_length T)"
    using v by (simp add: valid_table_def)
  then have c3: "hdr_num_entries ?buf \<noteq> 0 \<longrightarrow>
       8 + 8 * unat (hdr_num_entries ?buf) + sum_list (map unat (tbl_sizes (decoded_table ?buf)))
         \<le> unat (hdr_total_length ?buf)"
    unfolding dec by simp
  have "\<exists>h'. read_security_data ?buf (of_nat (length ?buf)) sd_p h1
             = Some (WIMLIB_ERR_SUCCESS, Some (next_addr h1), h') \<and>
           load_table h' (next_addr h1) = Some (decoded_table ?buf)"
    by (rule read_security_data_succeeds [OF ok all len8 c1 c2 c3])
  with write_security_data_bytes [OF T v] len dec show ?thesis
    by simp
qed

section \<open>Specified properties of free_security_data\<close>

text \<open>
  C10. Calling \<open>free_security_data\<close> with a null pointer is a safe no-op: it returns at
  once, the heap is the one it was given (nothing freed, no counter changed), and no
  assertion is evaluated (the call is defined, whatever the heap holds).
\<close>

theorem free_security_data_null_noop:
  "free_security_data None h = Some h"
  by (simp add: free_security_data_def)

text \<open>
  C7. Teardown at zero. For a table whose reference count is greater than one, one call
  of \<open>free_security_data\<close> stores the count decreased by one and changes no other block:
  the sizes, the pointer array and the descriptor buffers stay. For a table whose count is
  one (its blocks live and pairwise different), the call frees every descriptor buffer,
  the array of sizes, the array of pointers and the structure, and nothing else.
\<close>

theorem free_security_data_teardown_at_zero:
  assumes "store h sd = Some (Sd s)"
  shows "(1 < refcnt s \<longrightarrow>
           (\<exists>h'. free_security_data (Some sd) h = Some h' \<and>
                 store h' = (store h)(sd \<mapsto> Sd (s\<lparr>refcnt := refcnt s - 1\<rparr>)))) \<and>
         (refcnt s = 1 \<and> table_live h sd s \<longrightarrow>
           (\<exists>h'. free_security_data (Some sd) h = Some h' \<and>
                 store h' = (\<lambda>a. if a \<in> set (table_blocks h sd s) then None else store h a)))"
proof (intro conjI impI)
  assume "1 < refcnt s"
  with assms have "free_security_data (Some sd) h = Some (poke sd (Sd (s\<lparr>refcnt := refcnt s - 1\<rparr>)) h)"
    by (rule free_security_data_shared)
  then show "\<exists>h'. free_security_data (Some sd) h = Some h' \<and>
                 store h' = (store h)(sd \<mapsto> Sd (s\<lparr>refcnt := refcnt s - 1\<rparr>))"
    by (simp add: poke_def)
next
  assume "refcnt s = 1 \<and> table_live h sd s"
  with assms have "free_security_data (Some sd) h = Some (release (table_blocks h sd s) h)"
    by (simp add: free_security_data_last)
  then show "\<exists>h'. free_security_data (Some sd) h = Some h' \<and>
                 store h' = (\<lambda>a. if a \<in> set (table_blocks h sd s) then None else store h a)"
    by (simp add: release_def)
qed

theorem free_security_data_teardown_at_zero_witness:
  "store (example_heap 2) 0 = Some (Sd (example_sd 2)) \<and> 1 < refcnt (example_sd 2) \<and>
   (\<exists>h'. free_security_data (Some 0) (example_heap 2) = Some h' \<and>
         store h' = (store (example_heap 2))(0 \<mapsto> Sd (example_sd 1))) \<and>
   store (example_heap 1) 0 = Some (Sd (example_sd 1)) \<and> refcnt (example_sd 1) = 1 \<and>
   table_live (example_heap 1) 0 (example_sd 1) \<and>
   table_blocks (example_heap 1) 0 (example_sd 1) = [3, 1, 2, 0] \<and>
   (\<exists>h'. free_security_data (Some 0) (example_heap 1) = Some h' \<and> store h' = (\<lambda>a. None))"
proof -
  have s2: "store (example_heap 2) 0 = Some (Sd (example_sd 2))"
    and s1: "store (example_heap 1) 0 = Some (Sd (example_sd 1))"
    by (simp_all add: example_heap_def)
  have rc: "1 < refcnt (example_sd 2)" "refcnt (example_sd 1) = 1"
    "(example_sd 2)\<lparr>refcnt := refcnt (example_sd 2) - 1\<rparr> = example_sd 1"
    by (simp_all add: example_sd_def)
  have blocks: "table_blocks (example_heap 1) 0 (example_sd 1) = [3, 1, 2, 0]"
    by (simp add: table_blocks_def example_heap_def example_sd_def)
  have live: "table_live (example_heap 1) 0 (example_sd 1)"
    by (simp add: table_live_def blocks) (simp add: example_heap_def example_sd_def)
  have gone: "(\<lambda>a. if a \<in> set [3, 1, 2, 0 :: nat] then None else store (example_heap 1) a) = (\<lambda>a. None)"
    by (auto simp: example_heap_def fun_eq_iff)
  from free_security_data_teardown_at_zero [OF s2] free_security_data_teardown_at_zero [OF s1]
    s2 s1 rc blocks live gone
  show ?thesis by simp
qed


section \<open>Specified properties of read_security_data\<close>

lemmas run_defs = read_security_data_def read_entries_def read_descriptors.simps MALLOC_def CALLOC_def
  alloc_def get_u32_def get_bytes_def le32_def le64_def poke_def out_free_sd_def out_ok_def
  free_security_data_def FREE_def sizes_at_def set_descriptor_def sizeof_wim_security_data_def Let_def

lemma array_to_le64_numeral:
  "array_to_le64 bs (numeral k) = le64 (take 8 bs) # array_to_le64 (drop 8 bs) (pred_numeral k)"
  by (simp add: numeral_eq_Suc)

lemma replicate_numeral:
  "replicate (numeral k) x = x # replicate (pred_numeral k) x"
  by (simp add: numeral_eq_Suc)

lemma free_descriptors_numeral:
  "free_descriptors ps (numeral k) h =
     (case ps of
        [] \<Rightarrow> None
      | d # ps' \<Rightarrow> (case FREE d h of None \<Rightarrow> None | Some h' \<Rightarrow> free_descriptors ps' (pred_numeral k) h'))"
  by (simp add: numeral_eq_Suc)

lemmas run_numerals = array_to_le64_numeral replicate_numeral free_descriptors_numeral

text \<open>
  C6. Whenever \<open>read_security_data\<close> returns an error code (it is then
  \<open>WIMLIB_ERR_NOMEM\<close> or \<open>WIMLIB_ERR_INVALID_RESOURCE_SIZE\<close>), the caller's \<open>sd_p\<close> holds
  what it held before, and every block the call allocated has been released: the store is
  the one the call started with. And the call does return: for every resource of at least
  eight bytes and every length argument within it, whatever the allocator answers to each
  request, every step up to and including the release is defined (each \<open>FREE\<close> is of a live
  block, the assertion of \<open>free_security_data\<close> holds), provided the allocator refuses the
  requests whose size has wrapped the running length (granted such a request, the call
  copies that many bytes out of the resource).
\<close>

theorem read_security_data_failure_releases:
  assumes "heap_ok h"
  shows "(read_security_data metadata_resource metadata_resource_len sd_p h = Some (ret, sd_p', h') \<and>
            ret \<noteq> WIMLIB_ERR_SUCCESS \<longrightarrow>
          (ret = WIMLIB_ERR_NOMEM \<or> ret = WIMLIB_ERR_INVALID_RESOURCE_SIZE) \<and>
          sd_p' = sd_p \<and> store h' = store h) \<and>
         (8 \<le> length metadata_resource \<and> unat metadata_resource_len \<le> length metadata_resource \<and>
            wrapped_requests_refused metadata_resource h \<longrightarrow>
          (\<exists>r. read_security_data metadata_resource metadata_resource_len sd_p h = Some r))"
proof -
  have released: "(ret = WIMLIB_ERR_NOMEM \<or> ret = WIMLIB_ERR_INVALID_RESOURCE_SIZE) \<and>
          sd_p' = sd_p \<and> store h' = store h"
    if run: "read_security_data metadata_resource metadata_resource_len sd_p h = Some (ret, sd_p', h')"
      and err: "ret \<noteq> WIMLIB_ERR_SUCCESS"
  proof -
    from err have "ret = WIMLIB_ERR_NOMEM \<or> ret = WIMLIB_ERR_INVALID_RESOURCE_SIZE"
      by (cases ret) simp_all
    with read_security_data_post [OF assms run] err show ?thesis
      by blast
  qed
  have returns: "\<exists>r. read_security_data metadata_resource metadata_resource_len sd_p h = Some r"
    if "8 \<le> length metadata_resource" "unat metadata_resource_len \<le> length metadata_resource"
      "wrapped_requests_refused metadata_resource h"
    using read_security_data_defined [OF assms that, of sd_p] by auto
  from released returns show ?thesis
    by blast
qed

theorem read_security_data_failure_releases_witness:
  "heap_ok (stingy_heap 4) \<and> 8 \<le> length two_entries \<and> unat (29 :: u64) \<le> length two_entries \<and>
   wrapped_requests_refused two_entries (stingy_heap 4) \<and>
   (\<exists>r. read_security_data two_entries 29 (Some 7) (stingy_heap 4) = Some r) \<and>
   (\<exists>h'. read_security_data two_entries 29 (Some 7) (stingy_heap 4)
            = Some (WIMLIB_ERR_NOMEM, Some 7, h') \<and>
          store h' = store (stingy_heap 4)) \<and>
   heap_ok empty_heap \<and> 8 \<le> length second_overruns \<and> unat (28 :: u64) \<le> length second_overruns \<and>
   wrapped_requests_refused second_overruns empty_heap \<and>
   (\<exists>r. read_security_data second_overruns 28 (Some 7) empty_heap = Some r) \<and>
   (\<exists>h'. read_security_data second_overruns 28 (Some 7) empty_heap
            = Some (WIMLIB_ERR_INVALID_RESOURCE_SIZE, Some 7, h') \<and>
          store h' = store empty_heap) \<and>
   heap_ok (stingy_heap 3) \<and> 8 \<le> length wrapping \<and> unat (16 :: u64) \<le> length wrapping \<and>
   wrapped_requests_refused wrapping (stingy_heap 3) \<and>
   (\<exists>r. read_security_data wrapping 16 (Some 7) (stingy_heap 3) = Some r) \<and>
   (\<exists>h'. read_security_data wrapping 16 (Some 7) (stingy_heap 3)
            = Some (WIMLIB_ERR_NOMEM, Some 7, h') \<and>
          store h' = store (stingy_heap 3))"
proof -
  have ok: "heap_ok (stingy_heap 4)" "heap_ok empty_heap" "heap_ok (stingy_heap 3)"
    by (simp_all add: heap_ok_def empty_heap_def stingy_heap_def)
  have len3: "8 \<le> length wrapping" "unat (16 :: u64) \<le> length wrapping"
    by (simp_all add: wrapping_def)
  have w3: "wrapped_requests_refused wrapping (stingy_heap 3)"
    by (simp add: wrapped_requests_refused_def stingy_heap_def)
  have "\<exists>h'. read_security_data wrapping 16 (Some 7) (stingy_heap 3)
            = Some (WIMLIB_ERR_NOMEM, Some 7, h')"
    by (simp add: run_defs wrapping_def stingy_heap_def)
  then obtain h3 where r3: "read_security_data wrapping 16 (Some 7) (stingy_heap 3)
            = Some (WIMLIB_ERR_NOMEM, Some 7, h3)"
    by blast
  have len: "8 \<le> length two_entries" "unat (29 :: u64) \<le> length two_entries"
    "8 \<le> length second_overruns" "unat (28 :: u64) \<le> length second_overruns"
    by (simp_all add: two_entries_def second_overruns_def)
  have hdr: "hdr_num_entries two_entries = 2" "hdr_num_entries second_overruns = 2"
    by (simp_all add: two_entries_def second_overruns_def hdr_num_entries_def le32_def)
  have zs1: "tbl_sizes (decoded_table two_entries) = [4, 1]"
    unfolding decoded_table_def decoded_entries_def Let_def hdr table.simps
    by (simp add: array_to_le64_numeral) (simp add: two_entries_def le64_def)
  have zs2: "tbl_sizes (decoded_table second_overruns) = [4, 5]"
    unfolding decoded_table_def decoded_entries_def Let_def hdr table.simps
    by (simp add: array_to_le64_numeral) (simp add: second_overruns_def le64_def)
  have "sum_list (map unat (take (Suc j) [4, 1 :: u64])) \<le> 5" for j
    using sum_take_le [of "Suc j" "[4, 1 :: u64]"] by simp
  then have "\<not> 2 ^ 64 \<le> 8 + 8 * 2 + sum_list (map unat (take (Suc j) [4, 1 :: u64]))" for j
    by (simp add: not_le add.commute trans_le_add1 le_less_trans [of _ 5])
  then have w1: "wrapped_requests_refused two_entries (stingy_heap 4)"
    unfolding wrapped_requests_refused_def zs1 hdr by simp
  have "sum_list (map unat (take (Suc j) [4, 5 :: u64])) \<le> 9" for j
    using sum_take_le [of "Suc j" "[4, 5 :: u64]"] by simp
  then have "\<not> 2 ^ 64 \<le> 8 + 8 * 2 + sum_list (map unat (take (Suc j) [4, 5 :: u64]))" for j
    by (simp add: not_le add.commute trans_le_add1 le_less_trans [of _ 9])
  then have w2: "wrapped_requests_refused second_overruns empty_heap"
    unfolding wrapped_requests_refused_def zs2 hdr by simp
  have "\<exists>h'. read_security_data two_entries 29 (Some 7) (stingy_heap 4)
            = Some (WIMLIB_ERR_NOMEM, Some 7, h')"
    by (simp add: run_defs run_numerals two_entries_def stingy_heap_def)
  then obtain h1 where r1: "read_security_data two_entries 29 (Some 7) (stingy_heap 4)
            = Some (WIMLIB_ERR_NOMEM, Some 7, h1)"
    by blast
  have "\<exists>h'. read_security_data second_overruns 28 (Some 7) empty_heap
            = Some (WIMLIB_ERR_INVALID_RESOURCE_SIZE, Some 7, h')"
    by (simp add: run_defs run_numerals second_overruns_def empty_heap_def)
  then obtain h2 where r2: "read_security_data second_overruns 28 (Some 7) empty_heap
            = Some (WIMLIB_ERR_INVALID_RESOURCE_SIZE, Some 7, h2)"
    by blast
  from read_security_data_failure_releases [OF ok(1), of two_entries 29 "Some 7" WIMLIB_ERR_NOMEM "Some 7" h1]
    read_security_data_failure_releases [OF ok(2), of second_overruns 28 "Some 7"
      WIMLIB_ERR_INVALID_RESOURCE_SIZE "Some 7" h2]
    read_security_data_failure_releases [OF ok(3), of wrapping 16 "Some 7" WIMLIB_ERR_NOMEM "Some 7" h3]
    ok len len3 w1 w2 w3 r1 r2 r3
  show ?thesis by simp
qed

text \<open>
  C4. Every table that \<open>read_security_data\<close> returns satisfies
  \<open>total_length = 8 + 8 * num_entries + sum sizes\<close>, narrowed to 32 bits, whatever the
  length field of the resource said; the narrowing loses nothing unless the computed length
  exceeds \<open>2^32 - 1\<close>.
\<close>

theorem read_security_data_total_length:
  assumes "heap_ok h"
    and "read_security_data metadata_resource metadata_resource_len sd_p h
           = Some (WIMLIB_ERR_SUCCESS, sd_p', h')"
  shows "\<exists>sd T. sd_p' = Some sd \<and> load_table h' sd = Some T \<and>
           unat (tbl_total_length T)
             = (8 + 8 * unat (tbl_num_entries T) + sum_list (map unat (tbl_sizes T))) mod 2 ^ 32 \<and>
           (8 + 8 * unat (tbl_num_entries T) + sum_list (map unat (tbl_sizes T)) \<le> 2 ^ 32 - 1 \<longrightarrow>
            unat (tbl_total_length T)
              = 8 + 8 * unat (tbl_num_entries T) + sum_list (map unat (tbl_sizes T)))"
proof -
  from read_security_data_post [OF assms]
  have sd: "sd_p' = Some (next_addr h)"
    and T: "load_table h' (next_addr h) = Some (decoded_table metadata_resource)"
    by simp_all
  let ?T = "decoded_table metadata_resource"
  have "unat (tbl_total_length ?T)
      = (8 + 8 * unat (tbl_num_entries ?T) + sum_list (map unat (tbl_sizes ?T))) mod 2 ^ 32"
    unfolding decoded_table_def decoded_entries_def Let_def
    by (simp only: table.simps unat_of_nat) simp
  with sd T show ?thesis
    by (intro exI [of _ "next_addr h"] exI [of _ ?T]) simp
qed

theorem read_security_data_total_length_witness:
  "heap_ok empty_heap \<and> hdr_total_length slack_fit = 24 \<and>
   (\<exists>h'. read_security_data slack_fit 24 None empty_heap = Some (WIMLIB_ERR_SUCCESS, Some 0, h') \<and>
      (\<exists>T. load_table h' 0 = Some T \<and> T = decoded_table slack_fit \<and> tbl_total_length T = 20 \<and>
         unat (tbl_total_length T)
           = (8 + 8 * unat (tbl_num_entries T) + sum_list (map unat (tbl_sizes T))) mod 2 ^ 32))"
proof -
  have ok: "heap_ok empty_heap"
    by (simp add: heap_ok_def empty_heap_def)
  have hdr: "hdr_total_length slack_fit = 24" "hdr_num_entries slack_fit = 1"
    by (simp_all add: slack_fit_def hdr_total_length_def hdr_num_entries_def le32_def)
  have dec: "tbl_total_length (decoded_table slack_fit) = 20"
    by (simp add: decoded_table_def decoded_entries_def hdr) (simp add: slack_fit_def le64_def)
  have "\<exists>h'. read_security_data slack_fit 24 None empty_heap = Some (WIMLIB_ERR_SUCCESS, Some 0, h')"
    by (simp add: run_defs slack_fit_def empty_heap_def)
  then obtain h1 where r1: "read_security_data slack_fit 24 None empty_heap
      = Some (WIMLIB_ERR_SUCCESS, Some 0, h1)"
    by blast
  from read_security_data_post [OF ok r1]
  have T: "load_table h1 0 = Some (decoded_table slack_fit)"
    by (simp add: empty_heap_def)
  from read_security_data_total_length [OF ok r1] ok r1 hdr dec T
  show ?thesis by auto
qed

text \<open>
  C8. For every resource of at least eight bytes whose first four bytes declare a
  \<open>total_length\<close> greater than \<open>metadata_resource_len\<close>, \<open>read_security_data\<close> fails with
  \<open>WIMLIB_ERR_INVALID_RESOURCE_SIZE\<close>. The test follows the allocation of the structure;
  the statement is for a call whose allocation is granted.
\<close>

theorem read_security_data_bounds_rejection:
  assumes "heap_ok h" and "malloc_ok h (nallocs h)"
    and "8 \<le> length metadata_resource"
    and "unat metadata_resource_len < unat (hdr_total_length metadata_resource)"
  shows "\<exists>h'. read_security_data metadata_resource metadata_resource_len sd_p h
           = Some (WIMLIB_ERR_INVALID_RESOURCE_SIZE, sd_p, h') \<and> store h' = store h"
proof -
  from assms(4) have "ucast (hdr_total_length metadata_resource) > metadata_resource_len"
    by (simp add: word_less_nat_alt unat_ucast_u32_u64)
  with assms(1-3) show ?thesis
    by (rule read_security_data_bounds)
qed

theorem read_security_data_bounds_rejection_witness:
  "heap_ok empty_heap \<and> malloc_ok empty_heap (nallocs empty_heap) \<and>
   8 \<le> length zero_entries_oversized \<and>
   unat (8 :: u64) < unat (hdr_total_length zero_entries_oversized) \<and>
   (\<exists>h'. read_security_data zero_entries_oversized 8 None empty_heap
           = Some (WIMLIB_ERR_INVALID_RESOURCE_SIZE, None, h') \<and> store h' = store empty_heap)"
proof -
  have h: "heap_ok empty_heap" "malloc_ok empty_heap (nallocs empty_heap)"
    "8 \<le> length zero_entries_oversized"
    "unat (8 :: u64) < unat (hdr_total_length zero_entries_oversized)"
    by (simp_all add: heap_ok_def empty_heap_def zero_entries_oversized_def hdr_total_length_def le32_def)
  from read_security_data_bounds_rejection [OF h, of None] h show ?thesis
    by simp
qed

text \<open>
  C3, as stated: every resource of at least eight bytes whose \<open>num_entries\<close> field is zero
  decodes successfully, whatever its \<open>total_length\<close> field holds. The length test comes
  first in the source: a resource of eight bytes that declares a total length of one hundred
  and no entries is rejected.
\<close>

theorem zero_entries_oversized_rejected:
  "8 \<le> length zero_entries_oversized \<and> hdr_num_entries zero_entries_oversized = 0 \<and>
   map_option fst (read_security_data zero_entries_oversized 8 None empty_heap)
     = Some WIMLIB_ERR_INVALID_RESOURCE_SIZE"
  by (simp add: run_defs zero_entries_oversized_def empty_heap_def hdr_num_entries_def)

text \<open>
  C3, amended: for every resource of at least eight bytes whose \<open>num_entries\<close> field is
  zero and whose \<open>total_length\<close> field does not exceed \<open>metadata_resource_len\<close>,
  \<open>read_security_data\<close> (its allocation granted) succeeds and returns a table with no
  entries, no sizes, no descriptors and \<open>total_length\<close> eight, whatever the field held.
\<close>

theorem read_security_data_zero_entries:
  assumes "heap_ok h" and "malloc_ok h (nallocs h)"
    and "8 \<le> length metadata_resource"
    and "hdr_num_entries metadata_resource = 0"
    and "unat (hdr_total_length metadata_resource) \<le> unat metadata_resource_len"
  shows "\<exists>sd h'. read_security_data metadata_resource metadata_resource_len sd_p h
             = Some (WIMLIB_ERR_SUCCESS, Some sd, h') \<and>
           load_table h' sd = Some \<lparr>tbl_total_length = 8, tbl_num_entries = 0, tbl_sizes = [],
                                    tbl_descriptors = []\<rparr>"
proof -
  let ?s = "\<lparr>total_length = hdr_total_length metadata_resource, num_entries = 0,
             sizes = None, descriptors = None, refcnt = 1\<rparr>"
  from assms(5) have nbig: "\<not> ucast (hdr_total_length metadata_resource) > metadata_resource_len"
    by (simp add: word_less_nat_alt unat_ucast_u32_u64)
  from read_security_data_header_step [OF assms(2,3), of metadata_resource_len sd_p]
  obtain h0 where run: "read_security_data metadata_resource metadata_resource_len sd_p h
      = out_ok (next_addr h) ?s 8 (poke (next_addr h) (Sd ?s) h0)"
    using nbig assms(4) by (auto simp: Let_def)
  then obtain h' where r: "read_security_data metadata_resource metadata_resource_len sd_p h
      = Some (WIMLIB_ERR_SUCCESS, Some (next_addr h), h')"
    by (simp add: out_ok_def)
  from read_security_data_post [OF assms(1) r]
  have "load_table h' (next_addr h) = Some (decoded_table metadata_resource)"
    by simp
  with assms(4) r show ?thesis
    by (simp add: decoded_table_def decoded_entries_def)
qed

theorem read_security_data_zero_entries_witness:
  "heap_ok empty_heap \<and> malloc_ok empty_heap (nallocs empty_heap) \<and> 8 \<le> length zero_entries \<and>
   hdr_num_entries zero_entries = 0 \<and> unat (hdr_total_length zero_entries) \<le> unat (8 :: u64) \<and>
   hdr_total_length zero_entries = 5 \<and>
   (\<exists>sd h'. read_security_data zero_entries 8 None empty_heap = Some (WIMLIB_ERR_SUCCESS, Some sd, h') \<and>
      load_table h' sd = Some \<lparr>tbl_total_length = 8, tbl_num_entries = 0, tbl_sizes = [],
                               tbl_descriptors = []\<rparr>)"
proof -
  have h: "heap_ok empty_heap" "malloc_ok empty_heap (nallocs empty_heap)" "8 \<le> length zero_entries"
    "hdr_num_entries zero_entries = 0" "unat (hdr_total_length zero_entries) \<le> unat (8 :: u64)"
    and five: "hdr_total_length zero_entries = 5"
    by (simp_all add: heap_ok_def empty_heap_def zero_entries_def hdr_total_length_def
        hdr_num_entries_def le32_def)
  from read_security_data_zero_entries [OF h, of None] h five show ?thesis
    by simp
qed



text \<open>
  C1. A size that wraps the running length should make \<open>read_security_data\<close> fail with
  \<open>WIMLIB_ERR_INVALID_RESOURCE_SIZE\<close>. The source detects the wrap and prints a message,
  then goes on with the wrapped value. On the resource \<open>wrapping\<close> (total length 16, one
  entry of size \<open>2^64 - 16\<close>) the running length wraps to zero and passes the test against
  the total length; the call then asks for \<open>2^64 - 16\<close> bytes. If the request is granted,
  it copies that many bytes out of a resource of sixteen (undefined behaviour); if it is
  refused, the call fails with \<open>WIMLIB_ERR_NOMEM\<close>. In no heap and for no allocator
  does the call return \<open>WIMLIB_ERR_INVALID_RESOURCE_SIZE\<close>.
\<close>

theorem read_security_data_wrapping_not_rejected:
  "hdr_total_length wrapping = 16 \<and> hdr_num_entries wrapping = 1 \<and>
   tbl_sizes (decoded_table wrapping) = [2 ^ 64 - 16] \<and>
   (16 :: u64) + (2 ^ 64 - 16) = 0 \<and>
   read_security_data wrapping 16 sd_p h \<noteq> Some (WIMLIB_ERR_INVALID_RESOURCE_SIZE, sd_p', h') \<and>
   read_security_data wrapping 16 None empty_heap = None \<and>
   map_option fst (read_security_data wrapping 16 None (stingy_heap 3)) = Some WIMLIB_ERR_NOMEM"
proof -
  have hdr: "hdr_total_length wrapping = 16" "hdr_num_entries wrapping = 1"
    by (simp_all add: wrapping_def hdr_total_length_def hdr_num_entries_def le32_def)
  have zs: "tbl_sizes (decoded_table wrapping) = [2 ^ 64 - 16]"
    by (simp add: decoded_table_def decoded_entries_def hdr) (simp add: wrapping_def le64_def)
  have r0: "read_security_data wrapping 16 sd_p h \<noteq> Some (WIMLIB_ERR_INVALID_RESOURCE_SIZE, sd_p', h')"
    by (auto simp: run_defs wrapping_def split: if_splits option.splits block.splits)
  have r1: "read_security_data wrapping 16 None empty_heap = None"
    by (simp add: run_defs wrapping_def empty_heap_def)
  have r2: "map_option fst (read_security_data wrapping 16 None (stingy_heap 3)) = Some WIMLIB_ERR_NOMEM"
    by (simp add: run_defs wrapping_def stingy_heap_def)
  from hdr zs r0 r1 r2 show ?thesis by simp
qed


section \<open>Specified properties of write_security_data and of the round trip\<close>

text \<open>
  C5, as stated: for every table that satisfies the structural invariants, with
  \<open>total_length = 8 + 8 * num_entries + sum sizes\<close> as a 32-bit value,
  \<open>write_security_data\<close> writes exactly \<open>total_length\<close> bytes and its assertion holds. A
  table with one descriptor of \<open>2^32\<close> bytes and \<open>total_length\<close> sixteen satisfies these
  invariants; the call writes \<open>16 + 2^32\<close> bytes and its assertion fails.
\<close>

theorem write_security_data_wrapped_total_length:
  "load_table big_heap 0 = Some big_table \<and> valid_table_mod32 big_table \<and>
   write_security_data 0 big_heap = None"
proof -
  have T: "load_table big_heap 0 = Some big_table"
    by (simp add: load_table_def big_heap_def big_table_def bytes_at_def)
  have v: "valid_table_mod32 big_table"
    by (simp add: valid_table_mod32_def big_table_def length_big_descriptor)
  have "length (table_bytes big_table) \<noteq> unat (tbl_total_length big_table)"
    by (simp add: table_bytes_def big_table_def length_big_descriptor)
  moreover have "write_security_data 0 big_heap
      = (if length (table_bytes big_table) = unat (tbl_total_length big_table)
         then Some (table_bytes big_table) else None)"
    by (rule write_security_data_written [OF T])
      (simp_all add: big_table_def length_big_descriptor)
  ultimately show ?thesis
    using T v by simp
qed

text \<open>
  C5, amended: for every table in the heap that satisfies the structural invariants (sizes
  and descriptors index-aligned and \<open>num_entries\<close> long, each descriptor as long as its
  size) and whose \<open>total_length\<close> equals \<open>8 + 8 * num_entries + sum sizes\<close> without
  narrowing (the sum is at most \<open>2^32 - 1\<close>), \<open>write_security_data\<close> writes the header,
  then the sizes as little-endian 64-bit integers in index order, then the descriptors in
  index order: exactly \<open>total_length\<close> bytes. The call is defined, so its final assertion
  holds.
\<close>

theorem write_security_data_exact_length:
  assumes "load_table h sd = Some T" and "valid_table T"
  shows "write_security_data sd h
           = Some (put_u32 (tbl_total_length T) @ put_u32 (tbl_num_entries T)
                     @ concat (map put_u64 (tbl_sizes T)) @ concat (tbl_descriptors T)) \<and>
         length (put_u32 (tbl_total_length T) @ put_u32 (tbl_num_entries T)
                   @ concat (map put_u64 (tbl_sizes T)) @ concat (tbl_descriptors T))
           = unat (tbl_total_length T)"
  using write_security_data_bytes [OF assms] length_table_bytes [OF assms(2)]
  by (simp add: table_bytes_def)

theorem write_security_data_exact_length_witness:
  "load_table (example_heap 1) 0 = Some example_table \<and> valid_table example_table \<and>
   write_security_data 0 (example_heap 1) = Some exact_fit \<and> length exact_fit = 20"
proof -
  have T: "load_table (example_heap 1) 0 = Some example_table"
    by (simp add: load_table_def example_heap_def example_sd_def example_table_def bytes_at_def)
  have v: "valid_table example_table"
    by (simp add: valid_table_def example_table_def)
  have "put_u32 (tbl_total_length example_table) @ put_u32 (tbl_num_entries example_table)
          @ concat (map put_u64 (tbl_sizes example_table)) @ concat (tbl_descriptors example_table)
        = exact_fit"
    by (simp add: example_table_def exact_fit_def put_u32_def put_u64_def)
  with write_security_data_exact_length [OF T v] T v show ?thesis
    by (simp add: exact_fit_def)
qed

text \<open>
  C2. Round trip. For every table \<open>T\<close> in the heap that satisfies the structural
  invariants, \<open>write_security_data\<close> produces \<open>total_length\<close> bytes, and
  \<open>read_security_data\<close> on these bytes, with their number as length, succeeds and returns
  a table equal to \<open>T\<close>: the same number of entries, sizes, descriptor bytes and total
  length. The statement is for a decoding call whose allocations are granted.
\<close>

theorem security_data_round_trip:
  assumes "load_table h sd = Some T" and "valid_table T"
    and "heap_ok h1" and "\<forall>k. malloc_ok h1 k"
  shows "\<exists>bytes sd' h'.
           write_security_data sd h = Some bytes \<and> length bytes = unat (tbl_total_length T) \<and>
           read_security_data bytes (of_nat (length bytes)) sd_p h1
             = Some (WIMLIB_ERR_SUCCESS, Some sd', h') \<and>
           load_table h' sd' = Some T"
  using round_trip [OF assms, of sd_p] by blast

theorem security_data_round_trip_witness:
  "load_table (example_heap 1) 0 = Some example_table \<and> valid_table example_table \<and>
   heap_ok empty_heap \<and> (\<forall>k. malloc_ok empty_heap k) \<and>
   (\<exists>bytes sd' h'.
      write_security_data 0 (example_heap 1) = Some bytes \<and> length bytes = 20 \<and>
      read_security_data bytes (of_nat (length bytes)) None empty_heap
        = Some (WIMLIB_ERR_SUCCESS, Some sd', h') \<and>
      load_table h' sd' = Some example_table)"
proof -
  have T: "load_table (example_heap 1) 0 = Some example_table"
    by (simp add: load_table_def example_heap_def example_sd_def example_table_def bytes_at_def)
  have v: "valid_table example_table"
    by (simp add: valid_table_def example_table_def)
  have ok: "heap_ok empty_heap" and all: "\<forall>k. malloc_ok empty_heap k"
    by (simp_all add: heap_ok_def empty_heap_def)
  have "unat (tbl_total_length example_table) = 20"
    by (simp add: example_table_def)
  with security_data_round_trip [OF T v ok all, of None] T v ok all show ?thesis
    by simp
qed

end
